theory Spec2Isabelle
  imports Main
begin

section \<open>The WebSocket client of the dashboard\<close>

text \<open>
  The source is the class \<^verbatim>\<open>WebSocketClient\<close> (one instance, exported as a singleton).
  Its methods mutate the fields of \<^verbatim>\<open>this\<close>; its four socket handlers and its two timer
  callbacks are closures over \<^verbatim>\<open>this\<close>, not over the socket they were attached to.
  The model is explicit state passing over one record that holds the fields of the
  instance together with the part of the browser runtime the code acts on: the
  \<^verbatim>\<open>WebSocket\<close> objects created so far (a store indexed by creation order, the index being
  the identity of the object), the table of active timers, the frames sent, the console and
  the listener invocations made.
\<close>

subsection \<open>Data\<close>

text \<open>The four values of \<^verbatim>\<open>WebSocket.readyState\<close>.\<close>

datatype readyState = CONNECTING | OPEN | CLOSING | CLOSED

text \<open>
  A timer of the runtime. Every interval of this program runs the heartbeat callback and
  every timeout runs the reconnect callback, so the entry only keeps the kind and the
  number of milliseconds given to \<^verbatim>\<open>setInterval\<close> or \<^verbatim>\<open>setTimeout\<close>.
\<close>

datatype timer = Interval nat | Timeout nat

datatype console_entry =
    ConsoleLog string
  | ConsoleReconnecting nat nat
  | ConsoleError string

text \<open>
  A listener is an opaque function; its identity is a number. What it does when invoked
  is outside the class, except for its calls back into the registry (\<^verbatim>\<open>subscribe\<close>, or an
  unsubscribe handle obtained earlier) and for whether it finally throws.
\<close>

datatype registry_op = CallSubscribe nat | CallUnsubscribe nat

datatype behaviour = Behaviour (calls: "registry_op list") (raises: bool)

text \<open>
  The environment of the handlers: \<^verbatim>\<open>JSON.parse\<close> (\<open>None\<close> when it throws a
  \<^verbatim>\<open>SyntaxError\<close>) and the body of every listener. The decoded value is of an arbitrary
  type \<open>'j\<close>.
\<close>

record 'j env =
  JSON_parse :: "string \<Rightarrow> 'j option"
  callback :: "nat \<Rightarrow> behaviour"

text \<open>
  The first seven fields are the fields of the instance; the others are the runtime and
  the record of what the instance did: the sockets created (the state of each), the timers
  that are active, the next timer handle, the frames sent (socket and payload), the
  console, and the listener invocations made (listener and argument).
  \<open>listeners\<close> is the data of a JavaScript \<^verbatim>\<open>Set\<close>: the list of its entries in insertion
  order, where \<^verbatim>\<open>delete\<close> leaves an empty slot (\<open>None\<close>) behind, as the language
  definition has it; this is what an iteration in progress observes.
  \<open>pingInterval\<close> is \<open>None\<close> while the field is undefined; a timer handle is a positive
  number, hence truthy.
\<close>

record 'j client =
  ws :: "nat option"
  listeners :: "nat option list"
  reconnectAttempts :: nat
  maxReconnectAttempts :: nat
  reconnectDelay :: nat
  isIntentionallyClosed :: bool
  pingInterval :: "nat option"
  sockets :: "readyState list"
  timers :: "(nat \<times> timer) list"
  nextTimer :: nat
  sent :: "(nat \<times> string) list"
  console :: "console_entry list"
  invoked :: "(nat \<times> 'j) list"

subsection \<open>The runtime: sockets, timers, sets\<close>

definition readyState_of :: "'j client \<Rightarrow> readyState option" where
  \<comment> \<open>\<^verbatim>\<open>this.ws?.readyState\<close>; \<open>None\<close> is \<^verbatim>\<open>undefined\<close>.\<close>
  "readyState_of s =
     (case ws s of
        None \<Rightarrow> None
      | Some k \<Rightarrow> if k < length (sockets s) then Some (sockets s ! k) else None)"

definition new_WebSocket :: "'j client \<Rightarrow> nat \<times> 'j client" where
  \<comment> \<open>\<^verbatim>\<open>new WebSocket(WS_URL)\<close>, for the well-formed URL of the build: a socket that is connecting\<close>
  "new_WebSocket s = (length (sockets s), s\<lparr>sockets := sockets s @ [CONNECTING]\<rparr>)"

definition ws_close :: "nat \<Rightarrow> 'j client \<Rightarrow> 'j client" where
  \<comment> \<open>\<^verbatim>\<open>close()\<close> of a socket: nothing when it is closing or closed already.\<close>
  "ws_close k s =
     (if k < length (sockets s) then
        s\<lparr>sockets := (sockets s)[k :=
             (case sockets s ! k of
                CONNECTING \<Rightarrow> CLOSING
              | OPEN \<Rightarrow> CLOSING
              | CLOSING \<Rightarrow> CLOSING
              | CLOSED \<Rightarrow> CLOSED)]\<rparr>
      else s)"

definition ws_send :: "nat \<Rightarrow> string \<Rightarrow> 'j client \<Rightarrow> 'j client" where
  "ws_send k payload s = s\<lparr>sent := sent s @ [(k, payload)]\<rparr>"

definition setInterval :: "nat \<Rightarrow> 'j client \<Rightarrow> nat \<times> 'j client" where
  "setInterval ms s =
     (nextTimer s,
      s\<lparr>timers := timers s @ [(nextTimer s, Interval ms)], nextTimer := Suc (nextTimer s)\<rparr>)"

definition setTimeout :: "nat \<Rightarrow> 'j client \<Rightarrow> nat \<times> 'j client" where
  "setTimeout ms s =
     (nextTimer s,
      s\<lparr>timers := timers s @ [(nextTimer s, Timeout ms)], nextTimer := Suc (nextTimer s)\<rparr>)"

definition clearInterval :: "nat \<Rightarrow> 'j client \<Rightarrow> 'j client" where
  "clearInterval t s = s\<lparr>timers := filter (\<lambda>e. fst e \<noteq> t) (timers s)\<rparr>"

definition set_add :: "nat \<Rightarrow> nat option list \<Rightarrow> nat option list" where
  "set_add c es = (if Some c \<in> set es then es else es @ [Some c])"

definition set_delete :: "nat \<Rightarrow> nat option list \<Rightarrow> nat option list" where
  "set_delete c es = map (\<lambda>e. if e = Some c then None else e) es"

definition set_values :: "nat option list \<Rightarrow> nat list" where
  \<comment> \<open>the members of the set, in insertion order\<close>
  "set_values es = concat (map (\<lambda>e. case e of None \<Rightarrow> [] | Some c \<Rightarrow> [c]) es)"

subsection \<open>The class\<close>

definition constructor :: "'j client" where
  "constructor =
     \<lparr>ws = None, listeners = [], reconnectAttempts = 0, maxReconnectAttempts = 5,
      reconnectDelay = 3000, isIntentionallyClosed = False, pingInterval = None,
      sockets = [], timers = [], nextTimer = 1, sent = [], console = [], invoked = []\<rparr>"

definition connect :: "'j client \<Rightarrow> 'j client" where
  "connect s =
     (if readyState_of s = Some OPEN then s
      else
        (let s1 = s\<lparr>isIntentionallyClosed := False\<rparr>;
             (k, s2) = new_WebSocket s1
         in s2\<lparr>ws := Some k\<rparr>))"

definition heartbeat :: "'j client \<Rightarrow> 'j client" where
  \<comment> \<open>the callback given to \<^verbatim>\<open>setInterval\<close> in the open handler\<close>
  "heartbeat s =
     (if readyState_of s = Some OPEN then
        (case ws s of Some k \<Rightarrow> ws_send k ''ping'' s | None \<Rightarrow> s)
      else s)"

definition onopen :: "'j client \<Rightarrow> 'j client" where
  "onopen s =
     (let s1 = s\<lparr>console := console s @ [ConsoleLog ''WebSocket connected'']\<rparr>;
          s2 = s1\<lparr>reconnectAttempts := 0\<rparr>;
          (t, s3) = setInterval 30000 s2
      in s3\<lparr>pingInterval := Some t\<rparr>)"

definition subscribe :: "nat \<Rightarrow> 'j client \<Rightarrow> 'j client" where
  "subscribe c s = s\<lparr>listeners := set_add c (listeners s)\<rparr>"

definition unsubscribe :: "nat \<Rightarrow> 'j client \<Rightarrow> 'j client" where
  \<comment> \<open>the closure returned by \<^verbatim>\<open>subscribe\<close>\<close>
  "unsubscribe c s = s\<lparr>listeners := set_delete c (listeners s)\<rparr>"

fun registry_call :: "registry_op \<Rightarrow> 'j client \<Rightarrow> 'j client" where
  "registry_call (CallSubscribe c) s = subscribe c s"
| "registry_call (CallUnsubscribe c) s = unsubscribe c s"

definition call_listener :: "'j env \<Rightarrow> nat \<Rightarrow> 'j \<Rightarrow> 'j client \<Rightarrow> bool \<times> 'j client" where
  \<comment> \<open>\<^verbatim>\<open>callback(data)\<close>: the first component tells whether the call threw\<close>
  "call_listener env c d s =
     (raises (callback env c),
      fold registry_call (calls (callback env c)) (s\<lparr>invoked := invoked s @ [(c, d)]\<rparr>))"

text \<open>
  \<^verbatim>\<open>Set.prototype.forEach\<close> on \<^verbatim>\<open>this.listeners\<close>: the iteration of the language walks
  the entry list by index, skips empty slots and reads the length again after every call,
  so entries added by a callback are visited too. A callback that keeps adding entries
  keeps the loop running; the first argument bounds the number of slots visited and
  \<open>None\<close> is the loop that has not finished within it.
\<close>

fun forEach :: "nat \<Rightarrow> (nat \<Rightarrow> 'j client \<Rightarrow> 'j client) \<Rightarrow> nat \<Rightarrow> 'j client \<Rightarrow> 'j client option" where
  "forEach 0 f i s = (if i < length (listeners s) then None else Some s)"
| "forEach (Suc n) f i s =
     (if i < length (listeners s) then
        (case listeners s ! i of
           None \<Rightarrow> forEach n f (Suc i) s
         | Some c \<Rightarrow> forEach n f (Suc i) (f c s))
      else Some s)"

definition notify_one :: "'j env \<Rightarrow> 'j \<Rightarrow> nat \<Rightarrow> 'j client \<Rightarrow> 'j client" where
  \<comment> \<open>the arrow function of \<^verbatim>\<open>notifyListeners\<close>: the call inside \<^verbatim>\<open>try\<close>, the log inside \<^verbatim>\<open>catch\<close>\<close>
  "notify_one env d c s =
     (let (threw, s') = call_listener env c d s
      in if threw
         then s'\<lparr>console := console s' @ [ConsoleError ''Error in WebSocket listener:'']\<rparr>
         else s')"

definition notifyListeners :: "nat \<Rightarrow> 'j env \<Rightarrow> 'j \<Rightarrow> 'j client \<Rightarrow> 'j client option" where
  "notifyListeners n env d s = forEach n (notify_one env d) 0 s"

definition onmessage :: "nat \<Rightarrow> 'j env \<Rightarrow> string \<Rightarrow> 'j client \<Rightarrow> 'j client option" where
  "onmessage n env payload s =
     (if payload = ''pong'' then Some s
      else
        (case JSON_parse env payload of
           Some d \<Rightarrow> notifyListeners n env d s
         | None \<Rightarrow>
             Some (s\<lparr>console := console s @ [ConsoleError ''Error parsing WebSocket message:'']\<rparr>)))"

definition onerror :: "'j client \<Rightarrow> 'j client" where
  "onerror s = s\<lparr>console := console s @ [ConsoleError ''WebSocket error:'']\<rparr>"

definition onclose :: "'j client \<Rightarrow> 'j client" where
  "onclose s =
     (let s1 = s\<lparr>console := console s @ [ConsoleLog ''WebSocket disconnected'']\<rparr>;
          s2 = (case pingInterval s1 of Some t \<Rightarrow> clearInterval t s1 | None \<Rightarrow> s1)
      in if \<not> isIntentionallyClosed s2 \<and> reconnectAttempts s2 < maxReconnectAttempts s2 then
           (let s3 = s2\<lparr>reconnectAttempts := Suc (reconnectAttempts s2)\<rparr>;
                s4 = s3\<lparr>console := console s3 @
                        [ConsoleReconnecting (reconnectAttempts s3) (maxReconnectAttempts s3)]\<rparr>
            in snd (setTimeout (reconnectDelay s4) s4))
         else s2)"

definition disconnect :: "'j client \<Rightarrow> 'j client" where
  "disconnect s =
     (let s1 = s\<lparr>isIntentionallyClosed := True\<rparr>;
          s2 = (case pingInterval s1 of Some t \<Rightarrow> clearInterval t s1 | None \<Rightarrow> s1)
      in case ws s2 of
           Some k \<Rightarrow> (ws_close k s2)\<lparr>ws := None\<rparr>
         | None \<Rightarrow> s2)"

definition getConnectionState :: "'j client \<Rightarrow> string" where
  \<comment> \<open>the last case is the \<^verbatim>\<open>default\<close> of the switch: a state that is none of the four\<close>
  "getConnectionState s =
     (case ws s of
        None \<Rightarrow> ''DISCONNECTED''
      | Some k \<Rightarrow>
          (case readyState_of s of
             Some CONNECTING \<Rightarrow> ''CONNECTING''
           | Some OPEN \<Rightarrow> ''CONNECTED''
           | Some CLOSING \<Rightarrow> ''CLOSING''
           | Some CLOSED \<Rightarrow> ''DISCONNECTED''
           | None \<Rightarrow> ''UNKNOWN''))"

subsection \<open>Events\<close>

text \<open>
  What can happen to the instance: a call of one of its methods by the application, an
  event of a socket delivered by the runtime, or a timer that fires. The runtime sets the
  \<^verbatim>\<open>readyState\<close> of the socket before it runs the handler, delivers messages of open
  sockets only, and delivers nothing for a closed socket. \<open>None\<close> is an event that cannot
  occur in the state (or a dispatch that does not finish).
\<close>

datatype event =
    Connect
  | Disconnect
  | Subscribe nat
  | Unsubscribe nat
  | SockOpen nat
  | SockMessage nat string
  | SockError nat
  | SockClose nat
  | TimerFire nat

definition socket_opens :: "nat \<Rightarrow> 'j client \<Rightarrow> 'j client option" where
  "socket_opens k s =
     (if k < length (sockets s) \<and> sockets s ! k = CONNECTING
      then Some (onopen (s\<lparr>sockets := (sockets s)[k := OPEN]\<rparr>)) else None)"

definition socket_receives :: "nat \<Rightarrow> 'j env \<Rightarrow> nat \<Rightarrow> string \<Rightarrow> 'j client \<Rightarrow> 'j client option" where
  "socket_receives n env k payload s =
     (if k < length (sockets s) \<and> sockets s ! k = OPEN
      then onmessage n env payload s else None)"

definition socket_errors :: "nat \<Rightarrow> 'j client \<Rightarrow> 'j client option" where
  "socket_errors k s =
     (if k < length (sockets s) \<and> sockets s ! k \<noteq> CLOSED
      then Some (onerror s) else None)"

definition socket_closes :: "nat \<Rightarrow> 'j client \<Rightarrow> 'j client option" where
  "socket_closes k s =
     (if k < length (sockets s) \<and> sockets s ! k \<noteq> CLOSED
      then Some (onclose (s\<lparr>sockets := (sockets s)[k := CLOSED]\<rparr>)) else None)"

definition timer_fires :: "nat \<Rightarrow> 'j client \<Rightarrow> 'j client option" where
  \<comment> \<open>an interval stays in the table; a timeout leaves it and runs \<^verbatim>\<open>this.connect()\<close>\<close>
  "timer_fires t s =
     (case map_of (timers s) t of
        None \<Rightarrow> None
      | Some (Interval ms) \<Rightarrow> Some (heartbeat s)
      | Some (Timeout ms) \<Rightarrow> Some (connect (clearInterval t s)))"

fun step :: "nat \<Rightarrow> 'j env \<Rightarrow> event \<Rightarrow> 'j client \<Rightarrow> 'j client option" where
  "step n env Connect s = Some (connect s)"
| "step n env Disconnect s = Some (disconnect s)"
| "step n env (Subscribe c) s = Some (subscribe c s)"
| "step n env (Unsubscribe c) s = Some (unsubscribe c s)"
| "step n env (SockOpen k) s = socket_opens k s"
| "step n env (SockMessage k payload) s = socket_receives n env k payload s"
| "step n env (SockError k) s = socket_errors k s"
| "step n env (SockClose k) s = socket_closes k s"
| "step n env (TimerFire t) s = timer_fires t s"

fun run :: "nat \<Rightarrow> 'j env \<Rightarrow> event list \<Rightarrow> 'j client \<Rightarrow> 'j client option" where
  "run n env [] s = Some s"
| "run n env (e # es) s = (case step n env e s of None \<Rightarrow> None | Some s' \<Rightarrow> run n env es s')"

subsection \<open>Vocabulary of the properties\<close>

text \<open>The handles of the reconnections that are scheduled and have not fired yet.\<close>

definition pending_reconnects :: "'j client \<Rightarrow> nat list" where
  "pending_reconnects s =
     map fst (filter (\<lambda>e. case snd e of Interval ms \<Rightarrow> False | Timeout ms \<Rightarrow> True) (timers s))"

text \<open>
  Listener bodies: one whose calls into the registry are unsubscriptions only, and the
  listeners of a registry that are all of this kind, or that leave the registry alone.
\<close>

definition is_unsub :: "registry_op \<Rightarrow> bool" where
  "is_unsub op = (case op of CallSubscribe c \<Rightarrow> False | CallUnsubscribe c \<Rightarrow> True)"

definition unsubscribes_only :: "'j env \<Rightarrow> nat option list \<Rightarrow> bool" where
  "unsubscribes_only env es =
     list_all (\<lambda>c. list_all is_unsub (calls (callback env c))) (set_values es)"

definition registry_untouched :: "'j env \<Rightarrow> nat option list \<Rightarrow> bool" where
  "registry_untouched env es = list_all (\<lambda>c. calls (callback env c) = []) (set_values es)"

text \<open>
  Whether one of the listeners \<open>cs\<close> unsubscribes, or subscribes, listener \<open>c\<close> when it
  is called.
\<close>

definition unsubscribed_by :: "'j env \<Rightarrow> nat list \<Rightarrow> nat \<Rightarrow> bool" where
  "unsubscribed_by env cs c = list_ex (\<lambda>c'. CallUnsubscribe c \<in> set (calls (callback env c'))) cs"

definition subscribed_by :: "'j env \<Rightarrow> nat list \<Rightarrow> nat \<Rightarrow> bool" where
  "subscribed_by env cs c = list_ex (\<lambda>c'. CallSubscribe c \<in> set (calls (callback env c'))) cs"

text \<open>
  The listeners that a dispatch over the live set reaches when listeners only unsubscribe:
  in the order of registration, every listener but those that a listener reached before
  them unsubscribes. (A dispatch over a snapshot of the set would reach them all.)
\<close>

fun survivors :: "'j env \<Rightarrow> nat list \<Rightarrow> nat list" where
  "survivors env [] = []"
| "survivors env (c # cs) =
     c # survivors env (filter (\<lambda>x. CallUnsubscribe x \<notin> set (calls (callback env c))) cs)"

text \<open>Listener \<open>c'\<close> was registered before listener \<open>c\<close>, which is registered.\<close>

definition registered_before :: "'j client \<Rightarrow> nat \<Rightarrow> nat \<Rightarrow> bool" where
  "registered_before s c' c =
     (c \<in> set (set_values (listeners s)) \<and>
      c' \<in> set (takeWhile (\<lambda>x. x \<noteq> c) (set_values (listeners s))))"

text \<open>An entry list obtained from another by emptying some of its slots.\<close>

definition thinned :: "nat option list \<Rightarrow> nat option list \<Rightarrow> bool" where
  "thinned es' es = list_all2 (\<lambda>a b. a = None \<or> a = b) es' es"

text \<open>
  What holds of the instance whatever happened to it since its construction: the registry
  holds no listener twice, timer handles are not reused, the two constants of the
  reconnection policy are as constructed, the counter is within its bound and the socket
  reference is a socket that was created.
\<close>

definition well_formed :: "'j client \<Rightarrow> bool" where
  "well_formed s =
     (distinct (set_values (listeners s)) \<and>
      list_all (\<lambda>e. fst e < nextTimer s) (timers s) \<and>
      maxReconnectAttempts s = 5 \<and> reconnectDelay s = 3000 \<and>
      reconnectAttempts s \<le> 5 \<and>
      (case ws s of None \<Rightarrow> True | Some k \<Rightarrow> k < length (sockets s)))"

text \<open>
  A state with one live session and nothing else going on: the current socket is not
  closed, every other socket is, the client was not disconnected, no reconnection is
  pending, and \<open>c\<close> closes have been counted since the last successful open.
\<close>

definition session_live :: "nat \<Rightarrow> 'j client \<Rightarrow> bool" where
  "session_live c s =
     ((case ws s of
         None \<Rightarrow> False
       | Some k \<Rightarrow>
           k < length (sockets s) \<and> sockets s ! k \<noteq> CLOSED \<and>
           list_all (\<lambda>r. r = CLOSED) (take k (sockets s) @ drop (Suc k) (sockets s))) \<and>
      \<not> isIntentionallyClosed s \<and>
      reconnectAttempts s = c \<and>
      pending_reconnects s = [])"

text \<open>A state in which no socket is alive and no reconnection is pending.\<close>

definition quiescent :: "'j client \<Rightarrow> bool" where
  "quiescent s =
     (list_all (\<lambda>r. r = CLOSED) (sockets s) \<and> pending_reconnects s = [] \<and>
      (case ws s of None \<Rightarrow> True | Some k \<Rightarrow> k < length (sockets s)))"

text \<open>
  An involuntary close of the current socket, the firing of the reconnection that is
  pending, and \<open>m\<close> rounds of the one followed by the other (\<open>m\<close> connection attempts
  that fail one after the other).
\<close>

definition close_current :: "'j client \<Rightarrow> 'j client option" where
  "close_current s = (case ws s of None \<Rightarrow> None | Some k \<Rightarrow> socket_closes k s)"

definition fire_reconnect :: "'j client \<Rightarrow> 'j client option" where
  "fire_reconnect s = (case pending_reconnects s of [] \<Rightarrow> None | t # ts \<Rightarrow> timer_fires t s)"

fun close_and_retry :: "nat \<Rightarrow> 'j client \<Rightarrow> 'j client option" where
  "close_and_retry 0 s = Some s"
| "close_and_retry (Suc m) s =
     (case close_current s of
        None \<Rightarrow> None
      | Some s1 \<Rightarrow>
          (case fire_reconnect s1 of
             None \<Rightarrow> None
           | Some s2 \<Rightarrow> close_and_retry m s2))"

text \<open>
  Example inputs: the instance as constructed, with numbers for the decoded values; the
  instance after listeners 3 and 4 have subscribed and its first socket has opened; a
  parser that decodes the text \<^verbatim>\<open>42\<close> and rejects everything else, and
  listener bodies of which number 6 unsubscribes listener 7, number 3 throws, number 8
  unsubscribes and subscribes itself again, number 9 does the same to listener 10,
  number 11 subscribes listener 12, and the others do nothing.
\<close>

definition fresh_client :: "nat client" where
  "fresh_client = constructor"

definition connected_client :: "nat client" where
  "connected_client =
     \<lparr>ws = Some 0, listeners = [Some 3, Some 4], reconnectAttempts = 0,
      maxReconnectAttempts = 5, reconnectDelay = 3000, isIntentionallyClosed = False,
      pingInterval = Some 1, sockets = [OPEN], timers = [(1, Interval 30000)], nextTimer = 2,
      sent = [], console = [ConsoleLog ''WebSocket connected''], invoked = []\<rparr>"

definition sample_env :: "nat env" where
  "sample_env =
     \<lparr>JSON_parse = (\<lambda>p. if p = ''42'' then Some 42 else None),
      callback = (\<lambda>c. if c = 6 then Behaviour [CallUnsubscribe 7] False
                      else if c = 3 then Behaviour [] True
                      else if c = 8 then Behaviour [CallUnsubscribe 8, CallSubscribe 8] False
                      else if c = 9 then Behaviour [CallUnsubscribe 10, CallSubscribe 10] False
                      else if c = 11 then Behaviour [CallSubscribe 12] False
                      else Behaviour [] False)\<rparr>"

section \<open>The listener registry and its iteration\<close>

subsection \<open>Entry lists\<close>

lemma set_values_Nil [simp]: "set_values [] = []"
  by (simp add: set_values_def)

lemma set_values_Cons [simp]:
  "set_values (e # es) = (case e of None \<Rightarrow> set_values es | Some c \<Rightarrow> c # set_values es)"
  by (simp add: set_values_def split: option.splits)

lemma set_values_append [simp]: "set_values (xs @ ys) = set_values xs @ set_values ys"
  by (simp add: set_values_def)

lemma set_set_values: "set (set_values es) = {c. Some c \<in> set es}"
  by (induction es) (auto split: option.splits)

lemma thinned_refl: "thinned es es"
  by (simp add: thinned_def list_all2_refl)

lemma thinned_trans:
  assumes "thinned a b" "thinned b c"
  shows "thinned a c"
  using assms unfolding thinned_def by (rule list_all2_trans[rotated 1]) auto

lemma thinned_length: "thinned es' es \<Longrightarrow> length es' = length es"
  by (simp add: thinned_def list_all2_lengthD)

lemma thinned_drop: "thinned es' es \<Longrightarrow> thinned (drop i es') (drop i es)"
  by (simp add: thinned_def)

lemma thinned_nth: "thinned es' es \<Longrightarrow> i < length es \<Longrightarrow> es' ! i = None \<or> es' ! i = es ! i"
  unfolding thinned_def by (drule list_all2_nthD2) auto

lemma thinned_set_delete: "thinned (set_delete c es) es"
  by (induction es) (auto simp: thinned_def set_delete_def)

lemma thinned_values: "thinned es' es \<Longrightarrow> set (set_values es') \<subseteq> set (set_values es)"
  unfolding thinned_def by (induction es' es rule: list_all2_induct) (auto split: option.splits)

lemma thinned_distinct: "thinned es' es \<Longrightarrow> distinct (set_values es) \<Longrightarrow> distinct (set_values es')"
  unfolding thinned_def
proof (induction es' es rule: list_all2_induct)
  case Nil
  then show ?case by simp
next
  case (Cons a es' b es)
  from Cons.hyps(2) have "set (set_values es') \<subseteq> set (set_values es)"
    by (simp add: thinned_values thinned_def)
  with Cons show ?case by (auto split: option.splits)
qed

lemma distinct_values_later:
  assumes "distinct (set_values es)" "i < length es" "es ! i = Some c"
  shows "c \<notin> set (set_values (drop (Suc i) es))"
proof -
  have "es = take i es @ Some c # drop (Suc i) es"
    using assms(2,3) by (metis id_take_nth_drop)
  then have "set_values es = set_values (take i es) @ c # set_values (drop (Suc i) es)"
    by (metis set_values_append set_values_Cons option.simps(5))
  with assms(1) show ?thesis by auto
qed

lemma values_drop_step:
  assumes "i < length es"
  shows "set_values (drop i es) = (case es ! i of None \<Rightarrow> [] | Some c \<Rightarrow> [c]) @ set_values (drop (Suc i) es)"
proof -
  have "drop i es = es ! i # drop (Suc i) es"
    using assms by (simp add: Cons_nth_drop_Suc)
  then show ?thesis by (simp split: option.splits)
qed

lemma set_add_distinct: "distinct (set_values es) \<Longrightarrow> distinct (set_values (set_add c es))"
  by (simp add: set_add_def set_set_values)

lemma set_delete_distinct: "distinct (set_values es) \<Longrightarrow> distinct (set_values (set_delete c es))"
  by (rule thinned_distinct[OF thinned_set_delete])

subsection \<open>Subscriptions, and the calls of a listener into the registry\<close>

lemma registered_after_subscribe:
  "set (set_values (listeners (subscribe c s))) = insert c (set (set_values (listeners s)))"
  by (auto simp: subscribe_def set_add_def set_set_values)

lemma registered_after_unsubscribe:
  "set (set_values (listeners (unsubscribe c s))) = set (set_values (listeners s)) - {c}"
  by (auto simp: unsubscribe_def set_delete_def set_set_values)

lemma fold_unsub_listeners:
  "list_all is_unsub ops \<Longrightarrow> thinned (listeners (fold registry_call ops s)) (listeners s)"
proof (induction ops arbitrary: s)
  case Nil
  then show ?case by (simp add: thinned_refl)
next
  case (Cons a ops)
  then obtain c where a: "a = CallUnsubscribe c"
    by (cases a) (auto simp: is_unsub_def)
  have "thinned (listeners (fold registry_call ops (unsubscribe c s))) (listeners (unsubscribe c s))"
    using Cons by simp
  moreover have "thinned (listeners (unsubscribe c s)) (listeners s)"
    by (simp add: unsubscribe_def thinned_set_delete)
  ultimately show ?case using a by (auto intro: thinned_trans)
qed

lemma registry_call_frame:
  "ws (registry_call a s) = ws s" "sockets (registry_call a s) = sockets s"
  "timers (registry_call a s) = timers s" "nextTimer (registry_call a s) = nextTimer s"
  "reconnectAttempts (registry_call a s) = reconnectAttempts s"
  "maxReconnectAttempts (registry_call a s) = maxReconnectAttempts s"
  "reconnectDelay (registry_call a s) = reconnectDelay s"
  "isIntentionallyClosed (registry_call a s) = isIntentionallyClosed s"
  "pingInterval (registry_call a s) = pingInterval s"
  "sent (registry_call a s) = sent s" "console (registry_call a s) = console s"
  "invoked (registry_call a s) = invoked s"
  by (cases a; simp add: subscribe_def unsubscribe_def)+

lemma fold_registry_call_frame:
  "ws (fold registry_call ops s) = ws s" "sockets (fold registry_call ops s) = sockets s"
  "timers (fold registry_call ops s) = timers s" "nextTimer (fold registry_call ops s) = nextTimer s"
  "reconnectAttempts (fold registry_call ops s) = reconnectAttempts s"
  "maxReconnectAttempts (fold registry_call ops s) = maxReconnectAttempts s"
  "reconnectDelay (fold registry_call ops s) = reconnectDelay s"
  "isIntentionallyClosed (fold registry_call ops s) = isIntentionallyClosed s"
  "pingInterval (fold registry_call ops s) = pingInterval s"
  "sent (fold registry_call ops s) = sent s" "console (fold registry_call ops s) = console s"
  "invoked (fold registry_call ops s) = invoked s"
  by (induction ops arbitrary: s; simp add: registry_call_frame)+

lemma fold_registry_call_listeners_cong:
  "listeners s = listeners t \<Longrightarrow>
   listeners (fold registry_call ops s) = listeners (fold registry_call ops t)"
proof (induction ops arbitrary: s t)
  case Nil
  then show ?case by simp
next
  case (Cons a ops)
  have "listeners (registry_call a s) = listeners (registry_call a t)"
    using Cons.prems by (cases a) (simp_all add: subscribe_def unsubscribe_def)
  then show ?case using Cons.IH by simp
qed

lemma fold_registry_call_distinct:
  "distinct (set_values (listeners s)) \<Longrightarrow>
   distinct (set_values (listeners (fold registry_call ops s)))"
proof (induction ops arbitrary: s)
  case Nil
  then show ?case by simp
next
  case (Cons a ops)
  have "distinct (set_values (listeners (registry_call a s)))"
    using Cons.prems
    by (cases a) (simp_all add: subscribe_def unsubscribe_def set_add_distinct set_delete_distinct)
  then show ?case using Cons.IH by simp
qed

lemma notify_one_fields:
  "ws (notify_one env d c s) = ws s" "sockets (notify_one env d c s) = sockets s"
  "timers (notify_one env d c s) = timers s" "nextTimer (notify_one env d c s) = nextTimer s"
  "reconnectAttempts (notify_one env d c s) = reconnectAttempts s"
  "maxReconnectAttempts (notify_one env d c s) = maxReconnectAttempts s"
  "reconnectDelay (notify_one env d c s) = reconnectDelay s"
  "isIntentionallyClosed (notify_one env d c s) = isIntentionallyClosed s"
  "pingInterval (notify_one env d c s) = pingInterval s"
  "sent (notify_one env d c s) = sent s"
  "invoked (notify_one env d c s) = invoked s @ [(c, d)]"
  "console (notify_one env d c s) =
     console s @ (if raises (callback env c) then [ConsoleError ''Error in WebSocket listener:''] else [])"
  by (simp_all add: notify_one_def call_listener_def fold_registry_call_frame)

lemma notify_one_listeners:
  "listeners (notify_one env d c s) = listeners (fold registry_call (calls (callback env c)) s)"
proof -
  have "listeners (notify_one env d c s) =
        listeners (fold registry_call (calls (callback env c)) (s\<lparr>invoked := invoked s @ [(c, d)]\<rparr>))"
    by (simp add: notify_one_def call_listener_def)
  also have "\<dots> = listeners (fold registry_call (calls (callback env c)) s)"
    by (rule fold_registry_call_listeners_cong) simp
  finally show ?thesis .
qed

lemma registry_untouched_unsubscribes_only:
  "registry_untouched env es \<Longrightarrow> unsubscribes_only env es"
  by (simp add: registry_untouched_def unsubscribes_only_def list_all_iff)

lemma unsubscribes_only_thinned:
  "unsubscribes_only env es \<Longrightarrow> thinned es' es \<Longrightarrow> unsubscribes_only env es'"
  using thinned_values[of es' es] by (auto simp: unsubscribes_only_def list_all_iff)

subsection \<open>The dispatch loop\<close>

lemma forEach_frame:
  "forEach n (notify_one env d) i s = Some s' \<Longrightarrow>
   ws s' = ws s \<and> sockets s' = sockets s \<and> timers s' = timers s \<and>
   nextTimer s' = nextTimer s \<and> reconnectAttempts s' = reconnectAttempts s \<and>
   maxReconnectAttempts s' = maxReconnectAttempts s \<and> reconnectDelay s' = reconnectDelay s \<and>
   isIntentionallyClosed s' = isIntentionallyClosed s \<and> pingInterval s' = pingInterval s \<and>
   sent s' = sent s"
proof (induction n arbitrary: i s)
  case 0
  then show ?case by (simp split: if_splits)
next
  case (Suc n)
  show ?case
  proof (cases "i < length (listeners s)")
    case False
    with Suc.prems show ?thesis by simp
  next
    case True
    show ?thesis
    proof (cases "listeners s ! i")
      case None
      with True Suc.prems have "forEach n (notify_one env d) (Suc i) s = Some s'" by simp
      then show ?thesis by (rule Suc.IH)
    next
      case (Some c)
      with True Suc.prems
      have "forEach n (notify_one env d) (Suc i) (notify_one env d c s) = Some s'" by simp
      from Suc.IH[OF this] show ?thesis by (simp add: notify_one_fields)
    qed
  qed
qed

lemma forEach_distinct:
  "forEach n (notify_one env d) i s = Some s' \<Longrightarrow>
   distinct (set_values (listeners s)) \<Longrightarrow> distinct (set_values (listeners s'))"
proof (induction n arbitrary: i s)
  case 0
  then show ?case by (simp split: if_splits)
next
  case (Suc n)
  show ?case
  proof (cases "i < length (listeners s)")
    case False
    with Suc.prems show ?thesis by simp
  next
    case True
    show ?thesis
    proof (cases "listeners s ! i")
      case None
      with True Suc.prems have "forEach n (notify_one env d) (Suc i) s = Some s'" by simp
      then show ?thesis using Suc.prems(2) by (rule Suc.IH)
    next
      case (Some c)
      with True Suc.prems
      have "forEach n (notify_one env d) (Suc i) (notify_one env d c s) = Some s'" by simp
      moreover have "distinct (set_values (listeners (notify_one env d c s)))"
        using Suc.prems(2) by (simp add: notify_one_listeners fold_registry_call_distinct)
      ultimately show ?thesis by (rule Suc.IH)
    qed
  qed
qed

lemma forEach_unsubscribes_only:
  assumes "unsubscribes_only env (listeners s)"
    and "distinct (set_values (listeners s))"
    and "length (listeners s) \<le> i + n"
  shows "\<exists>s' cs. forEach n (notify_one env d) i s = Some s' \<and>
           invoked s' = invoked s @ map (\<lambda>c. (c, d)) cs \<and>
           console s' = console s @
             map (\<lambda>c. ConsoleError ''Error in WebSocket listener:'')
               (filter (\<lambda>c. raises (callback env c)) cs) \<and>
           distinct cs \<and>
           set cs \<subseteq> set (set_values (drop i (listeners s))) \<and>
           thinned (listeners s') (listeners s) \<and>
           set (set_values (drop i (listeners s'))) \<subseteq> set cs"
  using assms
proof (induction n arbitrary: i s)
  case 0
  then show ?case by (intro exI[of _ s] exI[of _ "[]"]) (simp add: thinned_refl)
next
  case (Suc n)
  let ?L = "listeners s"
  show ?case
  proof (cases "i < length ?L")
    case False
    then show ?thesis by (intro exI[of _ s] exI[of _ "[]"]) (simp add: thinned_refl)
  next
    case True
    show ?thesis
    proof (cases "?L ! i")
      case None
      from Suc.prems have "length ?L \<le> Suc i + n" by simp
      from Suc.IH[OF Suc.prems(1,2) this] obtain s' cs where
        run: "forEach n (notify_one env d) (Suc i) s = Some s'" and
        inv: "invoked s' = invoked s @ map (\<lambda>c. (c, d)) cs" and
        con: "console s' = console s @
                map (\<lambda>c. ConsoleError ''Error in WebSocket listener:'')
                  (filter (\<lambda>c. raises (callback env c)) cs)" and
        dis: "distinct cs" and
        sub: "set cs \<subseteq> set (set_values (drop (Suc i) ?L))" and
        thin: "thinned (listeners s') ?L" and
        rest: "set (set_values (drop (Suc i) (listeners s'))) \<subseteq> set cs"
        by blast
      have "forEach (Suc n) (notify_one env d) i s = Some s'"
        using True None run by simp
      moreover have "set cs \<subseteq> set (set_values (drop i ?L))"
        using sub True None by (auto simp: values_drop_step[of i ?L])
      moreover have "set (set_values (drop i (listeners s'))) \<subseteq> set cs"
      proof -
        have "listeners s' ! i = None"
          using thinned_nth[OF thin True] None by simp
        moreover have "i < length (listeners s')"
          using thinned_length[OF thin] True by simp
        ultimately show ?thesis
          using rest by (auto simp: values_drop_step[of i "listeners s'"])
      qed
      ultimately show ?thesis using inv con dis thin by blast
    next
      case (Some c)
      let ?s1 = "notify_one env d c s"
      let ?L1 = "listeners ?s1"
      have c_in: "c \<in> set (set_values ?L)"
        using True Some by (auto simp: set_set_values intro: nth_mem[of i ?L, simplified Some])
      then have "list_all is_unsub (calls (callback env c))"
        using Suc.prems(1) by (simp add: unsubscribes_only_def list_all_iff)
      then have thin1: "thinned ?L1 ?L"
        by (simp add: notify_one_listeners fold_unsub_listeners)
      have len1: "length ?L1 \<le> Suc i + n"
        using thinned_length[OF thin1] Suc.prems(3) by simp
      from Suc.IH[OF unsubscribes_only_thinned[OF Suc.prems(1) thin1]
                     thinned_distinct[OF thin1 Suc.prems(2)] len1]
      obtain s' cs where
        run: "forEach n (notify_one env d) (Suc i) ?s1 = Some s'" and
        inv: "invoked s' = invoked ?s1 @ map (\<lambda>c. (c, d)) cs" and
        con: "console s' = console ?s1 @
                map (\<lambda>c. ConsoleError ''Error in WebSocket listener:'')
                  (filter (\<lambda>c. raises (callback env c)) cs)" and
        dis: "distinct cs" and
        sub: "set cs \<subseteq> set (set_values (drop (Suc i) ?L1))" and
        thin: "thinned (listeners s') ?L1" and
        rest: "set (set_values (drop (Suc i) (listeners s'))) \<subseteq> set cs"
        by blast
      have sub': "set cs \<subseteq> set (set_values (drop (Suc i) ?L))"
        using sub thinned_values[OF thinned_drop[OF thin1, of "Suc i"]] by blast
      have c_new: "c \<notin> set cs"
        using distinct_values_later[OF Suc.prems(2) True Some] sub' by blast
      have thin': "thinned (listeners s') ?L"
        by (rule thinned_trans[OF thin thin1])
      have "forEach (Suc n) (notify_one env d) i s = Some s'"
        using True Some run by simp
      moreover have "invoked s' = invoked s @ map (\<lambda>c. (c, d)) (c # cs)"
        using inv by (simp add: notify_one_fields)
      moreover have "console s' = console s @
                map (\<lambda>c. ConsoleError ''Error in WebSocket listener:'')
                  (filter (\<lambda>c. raises (callback env c)) (c # cs))"
        using con by (simp add: notify_one_fields)
      moreover have "distinct (c # cs)"
        using dis c_new by simp
      moreover have "set (c # cs) \<subseteq> set (set_values (drop i ?L))"
        using sub' True Some by (auto simp: values_drop_step[of i ?L])
      moreover have "set (set_values (drop i (listeners s'))) \<subseteq> set (c # cs)"
      proof -
        have "listeners s' ! i = None \<or> listeners s' ! i = Some c"
          using thinned_nth[OF thin' True] Some by simp
        moreover have "i < length (listeners s')"
          using thinned_length[OF thin'] True by simp
        ultimately show ?thesis
          using rest by (auto simp: values_drop_step[of i "listeners s'"])
      qed
      ultimately show ?thesis using thin' by blast
    qed
  qed
qed

lemma forEach_untouched:
  assumes "registry_untouched env (listeners s)" and "length (listeners s) \<le> i + n"
  shows "\<exists>s'. forEach n (notify_one env d) i s = Some s' \<and>
           listeners s' = listeners s \<and>
           invoked s' = invoked s @ map (\<lambda>c. (c, d)) (set_values (drop i (listeners s))) \<and>
           console s' = console s @
             map (\<lambda>c. ConsoleError ''Error in WebSocket listener:'')
               (filter (\<lambda>c. raises (callback env c)) (set_values (drop i (listeners s))))"
  using assms
proof (induction n arbitrary: i s)
  case 0
  then show ?case by simp
next
  case (Suc n)
  let ?L = "listeners s"
  show ?case
  proof (cases "i < length ?L")
    case False
    then show ?thesis by simp
  next
    case True
    from Suc.prems have len: "length ?L \<le> Suc i + n" by simp
    show ?thesis
    proof (cases "?L ! i")
      case None
      from Suc.IH[OF Suc.prems(1) len] obtain s' where
        "forEach n (notify_one env d) (Suc i) s = Some s'" "listeners s' = ?L"
        "invoked s' = invoked s @ map (\<lambda>c. (c, d)) (set_values (drop (Suc i) ?L))"
        "console s' = console s @
             map (\<lambda>c. ConsoleError ''Error in WebSocket listener:'')
               (filter (\<lambda>c. raises (callback env c)) (set_values (drop (Suc i) ?L)))"
        by blast
      with True None show ?thesis
        by (intro exI[of _ s']) (simp add: values_drop_step[of i ?L])
    next
      case (Some c)
      let ?s1 = "notify_one env d c s"
      have "c \<in> set (set_values ?L)"
        using True Some by (auto simp: set_set_values intro: nth_mem[of i ?L, simplified Some])
      then have "calls (callback env c) = []"
        using Suc.prems(1) by (simp add: registry_untouched_def list_all_iff)
      then have same: "listeners ?s1 = ?L"
        by (simp add: notify_one_listeners)
      from Suc.IH[of ?s1 "Suc i"] Suc.prems(1) len same obtain s' where
        "forEach n (notify_one env d) (Suc i) ?s1 = Some s'" "listeners s' = ?L"
        "invoked s' = invoked ?s1 @ map (\<lambda>c. (c, d)) (set_values (drop (Suc i) ?L))"
        "console s' = console ?s1 @
             map (\<lambda>c. ConsoleError ''Error in WebSocket listener:'')
               (filter (\<lambda>c. raises (callback env c)) (set_values (drop (Suc i) ?L)))"
        by auto
      with True Some show ?thesis
        by (intro exI[of _ s']) (simp add: values_drop_step[of i ?L] notify_one_fields)
    qed
  qed
qed

lemma dispatch_unsubscribes_only:
  assumes "distinct (set_values (listeners s))"
    and "unsubscribes_only env (listeners s)"
    and "length (listeners s) \<le> n"
  shows "\<exists>s' cs. notifyListeners n env d s = Some s' \<and>
           invoked s' = invoked s @ map (\<lambda>c. (c, d)) cs \<and>
           console s' = console s @
             map (\<lambda>c. ConsoleError ''Error in WebSocket listener:'')
               (filter (\<lambda>c. raises (callback env c)) cs) \<and>
           distinct cs \<and>
           set cs \<subseteq> set (set_values (listeners s)) \<and>
           set (set_values (listeners s')) \<subseteq> set cs \<and>
           (registry_untouched env (listeners s) \<longrightarrow> cs = set_values (listeners s))"
proof -
  from assms(3) have len: "length (listeners s) \<le> 0 + n" by simp
  from forEach_unsubscribes_only[OF assms(2,1) len, of d] obtain s' cs where
    r: "forEach n (notify_one env d) 0 s = Some s'"
       "invoked s' = invoked s @ map (\<lambda>c. (c, d)) cs"
       "console s' = console s @
             map (\<lambda>c. ConsoleError ''Error in WebSocket listener:'')
               (filter (\<lambda>c. raises (callback env c)) cs)"
       "distinct cs"
       "set cs \<subseteq> set (set_values (listeners s))"
       "set (set_values (listeners s')) \<subseteq> set cs"
    by auto
  have "registry_untouched env (listeners s) \<longrightarrow> cs = set_values (listeners s)"
  proof
    assume "registry_untouched env (listeners s)"
    from forEach_untouched[OF this len, of d] r(1,2)
    have "map (\<lambda>c. (c, d)) cs = map (\<lambda>c. (c, d)) (set_values (listeners s))" by simp
    then show "cs = set_values (listeners s)"
      by (simp add: inj_on_def)
  qed
  with r show ?thesis
    unfolding notifyListeners_def by (intro exI[of _ s'] exI[of _ cs]) simp
qed

lemma nth_in_drop:
  assumes "j < k" "k < length es"
  shows "es ! k \<in> set (drop (Suc j) es)"
proof -
  have "drop (Suc j) es ! (k - Suc j) = es ! k"
    using assms by simp
  moreover have "k - Suc j < length (drop (Suc j) es)"
    using assms by simp
  ultimately show ?thesis by (metis nth_mem)
qed

lemma distinct_values_nth:
  assumes "distinct (set_values es)" "j < length es" "k < length es"
    and "es ! j = Some c" "es ! k = Some c"
  shows "j = k"
proof (rule ccontr)
  assume "j \<noteq> k"
  then consider "j < k" | "k < j" by linarith
  then show False
  proof cases
    case 1
    from nth_in_drop[OF 1 assms(3)] have "c \<in> set (set_values (drop (Suc j) es))"
      using assms(5) by (simp add: set_set_values)
    with distinct_values_later[OF assms(1,2,4)] show False by simp
  next
    case 2
    from nth_in_drop[OF 2 assms(2)] have "c \<in> set (set_values (drop (Suc k) es))"
      using assms(4) by (simp add: set_set_values)
    with distinct_values_later[OF assms(1,3,5)] show False by simp
  qed
qed

lemma set_add_nth: "j < length es \<Longrightarrow> set_add c es ! j = es ! j"
  by (simp add: set_add_def nth_append)

lemma set_add_new:
  "length es \<le> j \<Longrightarrow> j < length (set_add c es) \<Longrightarrow> set_add c es ! j = Some c"
  by (auto simp: set_add_def nth_append split: if_splits)

lemma set_add_length: "length es \<le> length (set_add c es)"
  by (simp add: set_add_def)

lemma set_delete_nth:
  "j < length es \<Longrightarrow> set_delete c es ! j = (if es ! j = Some c then None else es ! j)"
  by (simp add: set_delete_def)

lemma set_delete_length: "length (set_delete c es) = length es"
  by (simp add: set_delete_def)

lemma fold_registry_call_slots:
  "length (listeners s) \<le> length (listeners (fold registry_call ops s)) \<and>
   (\<forall>j < length (listeners s).
      listeners (fold registry_call ops s) ! j = None \<or>
      listeners (fold registry_call ops s) ! j = listeners s ! j) \<and>
   (\<forall>j c. j < length (listeners s) \<longrightarrow> listeners s ! j = Some c \<longrightarrow>
      CallUnsubscribe c \<notin> set ops \<longrightarrow> listeners (fold registry_call ops s) ! j = Some c) \<and>
   (\<forall>j c. length (listeners s) \<le> j \<longrightarrow> j < length (listeners (fold registry_call ops s)) \<longrightarrow>
      listeners (fold registry_call ops s) ! j = Some c \<longrightarrow> CallSubscribe c \<in> set ops)"
proof (induction ops arbitrary: s)
  case Nil
  then show ?case by simp
next
  case (Cons a ops)
  let ?L = "listeners s"
  let ?sa = "registry_call a s"
  let ?La = "listeners ?sa"
  let ?L' = "listeners (fold registry_call ops ?sa)"
  note IH = Cons.IH[of ?sa]
  have len_a: "length ?L \<le> length ?La"
    by (cases a) (simp_all add: subscribe_def unsubscribe_def set_add_length set_delete_length)
  have old_a: "\<And>j. j < length ?L \<Longrightarrow> ?La ! j = None \<or> ?La ! j = ?L ! j"
    by (cases a) (simp_all add: subscribe_def unsubscribe_def set_add_nth set_delete_nth)
  have keep_a: "\<And>j c. j < length ?L \<Longrightarrow> ?L ! j = Some c \<Longrightarrow> a \<noteq> CallUnsubscribe c \<Longrightarrow>
      ?La ! j = Some c"
    by (cases a) (auto simp: subscribe_def unsubscribe_def set_add_nth set_delete_nth)
  have new_a: "\<And>j c. length ?L \<le> j \<Longrightarrow> j < length ?La \<Longrightarrow> ?La ! j = Some c \<Longrightarrow>
      a = CallSubscribe c"
    by (cases a) (auto simp: subscribe_def unsubscribe_def set_delete_length dest: set_add_new)
  have 1: "length ?L \<le> length ?L'"
    using IH len_a by simp
  have 2: "\<forall>j < length ?L. ?L' ! j = None \<or> ?L' ! j = ?L ! j"
  proof (intro allI impI)
    fix j assume j: "j < length ?L"
    then have "j < length ?La" using len_a by simp
    with IH have "?L' ! j = None \<or> ?L' ! j = ?La ! j" by blast
    with old_a[OF j] show "?L' ! j = None \<or> ?L' ! j = ?L ! j" by auto
  qed
  have 3: "\<forall>j c. j < length ?L \<longrightarrow> ?L ! j = Some c \<longrightarrow>
      CallUnsubscribe c \<notin> set (a # ops) \<longrightarrow> ?L' ! j = Some c"
  proof (intro allI impI)
    fix j c assume j: "j < length ?L" and c: "?L ! j = Some c"
      and n: "CallUnsubscribe c \<notin> set (a # ops)"
    from n have "a \<noteq> CallUnsubscribe c" "CallUnsubscribe c \<notin> set ops" by auto
    from keep_a[OF j c this(1)] have "?La ! j = Some c" .
    moreover have "j < length ?La" using j len_a by simp
    ultimately show "?L' ! j = Some c"
      using IH \<open>CallUnsubscribe c \<notin> set ops\<close> by blast
  qed
  have 4: "\<forall>j c. length ?L \<le> j \<longrightarrow> j < length ?L' \<longrightarrow> ?L' ! j = Some c \<longrightarrow>
      CallSubscribe c \<in> set (a # ops)"
  proof (intro allI impI)
    fix j c assume j: "length ?L \<le> j" "j < length ?L'" and c: "?L' ! j = Some c"
    show "CallSubscribe c \<in> set (a # ops)"
    proof (cases "j < length ?La")
      case True
      with IH have "?L' ! j = None \<or> ?L' ! j = ?La ! j" by blast
      with c have "?La ! j = Some c" by auto
      from new_a[OF j(1) True this] show ?thesis by simp
    next
      case False
      then have "length ?La \<le> j" by simp
      with IH j(2) c have "CallSubscribe c \<in> set ops" by blast
      then show ?thesis by simp
    qed
  qed
  from 1 2 3 4 show ?case by simp
qed

lemma unsubscribed_by_Cons:
  "unsubscribed_by env (c' # cs) c \<longleftrightarrow>
     CallUnsubscribe c \<in> set (calls (callback env c')) \<or> unsubscribed_by env cs c"
  by (simp add: unsubscribed_by_def)

lemma subscribed_by_Cons:
  "subscribed_by env (c' # cs) c \<longleftrightarrow>
     CallSubscribe c \<in> set (calls (callback env c')) \<or> subscribed_by env cs c"
  by (simp add: subscribed_by_def)

lemma forEach_general:
  assumes "forEach n (notify_one env d) i s = Some s'"
    and "distinct (set_values (listeners s))"
  shows "\<exists>cs. invoked s' = invoked s @ map (\<lambda>c. (c, d)) cs \<and>
           console s' = console s @
             map (\<lambda>c. ConsoleError ''Error in WebSocket listener:'')
               (filter (\<lambda>c. raises (callback env c)) cs) \<and>
           (\<forall>j c. j < length (listeners s) \<longrightarrow> listeners s ! j = Some c \<longrightarrow>
              \<not> unsubscribed_by env cs c \<longrightarrow> count_list cs c = (if i \<le> j then 1 else 0)) \<and>
           (\<forall>c \<in> set cs.
              (\<exists>j. i \<le> j \<and> j < length (listeners s) \<and> listeners s ! j = Some c) \<or>
              subscribed_by env cs c)"
  using assms
proof (induction n arbitrary: i s)
  case 0
  then have "s' = s" "length (listeners s) \<le> i" by (simp_all split: if_splits)
  then show ?case by (intro exI[of _ "[]"]) simp
next
  case (Suc n)
  let ?L = "listeners s"
  show ?case
  proof (cases "i < length ?L")
    case False
    with Suc.prems have "s' = s" by simp
    with False show ?thesis by (intro exI[of _ "[]"]) simp
  next
    case True
    show ?thesis
    proof (cases "?L ! i")
      case None
      with True Suc.prems have "forEach n (notify_one env d) (Suc i) s = Some s'" by simp
      from Suc.IH[OF this Suc.prems(2)] obtain cs where
        inv: "invoked s' = invoked s @ map (\<lambda>c. (c, d)) cs" and
        con: "console s' = console s @
             map (\<lambda>c. ConsoleError ''Error in WebSocket listener:'')
               (filter (\<lambda>c. raises (callback env c)) cs)" and
        cnt: "\<forall>j c. j < length ?L \<longrightarrow> ?L ! j = Some c \<longrightarrow>
              \<not> unsubscribed_by env cs c \<longrightarrow> count_list cs c = (if Suc i \<le> j then 1 else 0)" and
        src: "\<forall>c \<in> set cs.
              (\<exists>j. Suc i \<le> j \<and> j < length ?L \<and> ?L ! j = Some c) \<or> subscribed_by env cs c"
        by blast
      have cnt': "\<forall>j c. j < length ?L \<longrightarrow> ?L ! j = Some c \<longrightarrow>
              \<not> unsubscribed_by env cs c \<longrightarrow> count_list cs c = (if i \<le> j then 1 else 0)"
      proof (intro allI impI)
        fix j c assume j: "j < length ?L" "?L ! j = Some c" "\<not> unsubscribed_by env cs c"
        with None have "j \<noteq> i" by auto
        then have "(Suc i \<le> j) = (i \<le> j)" by auto
        with cnt j show "count_list cs c = (if i \<le> j then 1 else 0)" by simp
      qed
      have src': "\<forall>c \<in> set cs.
              (\<exists>j. i \<le> j \<and> j < length ?L \<and> ?L ! j = Some c) \<or> subscribed_by env cs c"
        using src by (meson Suc_leD)
      from inv con cnt' src' show ?thesis by blast
    next
      case (Some c0)
      let ?ops = "calls (callback env c0)"
      let ?s1 = "notify_one env d c0 s"
      let ?L1 = "listeners ?s1"
      have L1: "?L1 = listeners (fold registry_call ?ops s)"
        by (rule notify_one_listeners)
      note slots = fold_registry_call_slots[of s ?ops, folded L1]
      have d1: "distinct (set_values ?L1)"
        using Suc.prems(2) by (simp add: L1 fold_registry_call_distinct)
      from True Some Suc.prems(1)
      have "forEach n (notify_one env d) (Suc i) ?s1 = Some s'" by simp
      from Suc.IH[OF this d1] obtain cs where
        inv: "invoked s' = invoked ?s1 @ map (\<lambda>c. (c, d)) cs" and
        con: "console s' = console ?s1 @
             map (\<lambda>c. ConsoleError ''Error in WebSocket listener:'')
               (filter (\<lambda>c. raises (callback env c)) cs)" and
        cnt: "\<forall>j c. j < length ?L1 \<longrightarrow> ?L1 ! j = Some c \<longrightarrow>
              \<not> unsubscribed_by env cs c \<longrightarrow> count_list cs c = (if Suc i \<le> j then 1 else 0)" and
        src: "\<forall>c \<in> set cs.
              (\<exists>j. Suc i \<le> j \<and> j < length ?L1 \<and> ?L1 ! j = Some c) \<or> subscribed_by env cs c"
        by blast
      have inv': "invoked s' = invoked s @ map (\<lambda>c. (c, d)) (c0 # cs)"
        using inv by (simp add: notify_one_fields)
      have con': "console s' = console s @
             map (\<lambda>c. ConsoleError ''Error in WebSocket listener:'')
               (filter (\<lambda>c. raises (callback env c)) (c0 # cs))"
        using con by (simp add: notify_one_fields)
      have cnt': "\<forall>j c. j < length ?L \<longrightarrow> ?L ! j = Some c \<longrightarrow>
              \<not> unsubscribed_by env (c0 # cs) c \<longrightarrow>
              count_list (c0 # cs) c = (if i \<le> j then 1 else 0)"
      proof (intro allI impI)
        fix j c assume j: "j < length ?L" "?L ! j = Some c"
          and nu: "\<not> unsubscribed_by env (c0 # cs) c"
        from nu have nu0: "CallUnsubscribe c \<notin> set ?ops" and nu1: "\<not> unsubscribed_by env cs c"
          by (simp_all add: unsubscribed_by_Cons)
        from slots j nu0 have at1: "?L1 ! j = Some c" "j < length ?L1" by auto
        with cnt nu1 have c1: "count_list cs c = (if Suc i \<le> j then 1 else 0)" by blast
        show "count_list (c0 # cs) c = (if i \<le> j then 1 else 0)"
        proof (cases "j = i")
          case True
          with j Some have "c = c0" by simp
          with c1 True show ?thesis by simp
        next
          case False
          have "c \<noteq> c0"
          proof
            assume "c = c0"
            with distinct_values_nth[OF Suc.prems(2) j(1) \<open>i < length ?L\<close> j(2)] Some
            have "j = i" by simp
            with False show False by simp
          qed
          moreover from False have "(Suc i \<le> j) = (i \<le> j)" by auto
          ultimately show ?thesis using c1 by simp
        qed
      qed
      have src': "\<forall>c \<in> set (c0 # cs).
              (\<exists>j. i \<le> j \<and> j < length ?L \<and> ?L ! j = Some c) \<or> subscribed_by env (c0 # cs) c"
      proof
        fix c assume "c \<in> set (c0 # cs)"
        then consider "c = c0" | "c \<in> set cs" by auto
        then show "(\<exists>j. i \<le> j \<and> j < length ?L \<and> ?L ! j = Some c) \<or>
            subscribed_by env (c0 # cs) c"
        proof cases
          case 1
          with True Some show ?thesis by auto
        next
          case 2
          with src consider j where "Suc i \<le> j" "j < length ?L1" "?L1 ! j = Some c"
            | "subscribed_by env cs c" by blast
          then show ?thesis
          proof cases
            case 1
            show ?thesis
            proof (cases "j < length ?L")
              case True
              with slots have "?L1 ! j = None \<or> ?L1 ! j = ?L ! j" by blast
              with 1(3) have "?L ! j = Some c" by auto
              with True 1(1) show ?thesis by (meson Suc_leD)
            next
              case False
              then have "length ?L \<le> j" by simp
              with slots 1(2,3) have "CallSubscribe c \<in> set ?ops" by blast
              then show ?thesis by (simp add: subscribed_by_Cons)
            qed
          next
            case 2
            then show ?thesis by (simp add: subscribed_by_Cons)
          qed
        qed
      qed
      from inv' con' cnt' src' show ?thesis by blast
    qed
  qed
qed

subsection \<open>The listeners reached when listeners only unsubscribe\<close>

lemma survivors_subset: "set (survivors env vs) \<subseteq> set vs"
  by (induction env vs rule: survivors.induct) auto

lemma survivors_distinct: "distinct vs \<Longrightarrow> distinct (survivors env vs)"
proof (induction env vs rule: survivors.induct)
  case (1 env)
  then show ?case by simp
next
  case (2 env c cs)
  let ?rest = "filter (\<lambda>x. CallUnsubscribe x \<notin> set (calls (callback env c))) cs"
  have "set (survivors env ?rest) \<subseteq> set cs"
    using survivors_subset[of env ?rest] by auto
  with 2 show ?case by auto
qed

lemma survivors_untouched:
  "list_all (\<lambda>c. calls (callback env c) = []) vs \<Longrightarrow> survivors env vs = vs"
  by (induction vs) simp_all

lemma filter_takeWhile_subset:
  "set (filter P (takeWhile Q xs)) \<subseteq> set (takeWhile Q (filter P xs))"
  by (induction xs) auto

lemma survivors_skip:
  assumes "c' \<in> set (survivors env vs)"
    and "c' \<in> set (takeWhile (\<lambda>x. x \<noteq> c) vs)"
    and "CallUnsubscribe c \<in> set (calls (callback env c'))"
  shows "c \<notin> set (survivors env vs)"
  using assms
proof (induction env vs rule: survivors.induct)
  case (1 env)
  then show ?case by simp
next
  case (2 env c0 cs)
  let ?P = "\<lambda>x. CallUnsubscribe x \<notin> set (calls (callback env c0))"
  let ?rest = "filter ?P cs"
  from "2.prems"(2) have ne: "c0 \<noteq> c" by (auto split: if_splits)
  show ?case
  proof (cases "c' = c0")
    case True
    with "2.prems"(3) have "\<not> ?P c" by simp
    then have "c \<notin> set ?rest" by simp
    with survivors_subset[of env ?rest] ne show ?thesis by auto
  next
    case False
    with "2.prems"(1) have in_rest: "c' \<in> set (survivors env ?rest)" by simp
    with survivors_subset[of env ?rest] have "?P c'" by auto
    moreover from "2.prems"(2) False ne have "c' \<in> set (takeWhile (\<lambda>x. x \<noteq> c) cs)"
      by (auto split: if_splits)
    ultimately have m: "c' \<in> set (filter ?P (takeWhile (\<lambda>x. x \<noteq> c) cs))" by simp
    have "c' \<in> set (takeWhile (\<lambda>x. x \<noteq> c) ?rest)"
      by (rule subsetD[OF filter_takeWhile_subset m])
    from "2.IH"[OF in_rest this "2.prems"(3)] ne show ?thesis by simp
  qed
qed

lemma set_values_set_delete:
  "set_values (set_delete c es) = filter (\<lambda>x. x \<noteq> c) (set_values es)"
  by (induction es) (auto simp: set_delete_def split: option.splits)

lemma drop_set_delete: "drop k (set_delete c es) = set_delete c (drop k es)"
  by (simp add: set_delete_def drop_map)

lemma fold_unsub_values:
  "list_all is_unsub ops \<Longrightarrow>
   set_values (drop k (listeners (fold registry_call ops s))) =
     filter (\<lambda>x. CallUnsubscribe x \<notin> set ops) (set_values (drop k (listeners s)))"
proof (induction ops arbitrary: s)
  case Nil
  then show ?case by simp
next
  case (Cons a ops)
  then obtain c where a: "a = CallUnsubscribe c"
    by (cases a) (auto simp: is_unsub_def)
  have "set_values (drop k (listeners (fold registry_call ops (unsubscribe c s)))) =
        filter (\<lambda>x. CallUnsubscribe x \<notin> set ops)
          (set_values (drop k (listeners (unsubscribe c s))))"
    using Cons by simp
  also have "set_values (drop k (listeners (unsubscribe c s))) =
        filter (\<lambda>x. x \<noteq> c) (set_values (drop k (listeners s)))"
    by (simp add: unsubscribe_def drop_set_delete set_values_set_delete)
  finally show ?case
    using a by (auto intro: filter_cong)
qed

lemma forEach_survivors:
  assumes "unsubscribes_only env (listeners s)" and "length (listeners s) \<le> i + n"
  shows "\<exists>s'. forEach n (notify_one env d) i s = Some s' \<and>
           invoked s' = invoked s @
             map (\<lambda>c. (c, d)) (survivors env (set_values (drop i (listeners s))))"
  using assms
proof (induction n arbitrary: i s)
  case 0
  then show ?case by simp
next
  case (Suc n)
  let ?L = "listeners s"
  show ?case
  proof (cases "i < length ?L")
    case False
    then show ?thesis by simp
  next
    case True
    from Suc.prems have len: "length ?L \<le> Suc i + n" by simp
    show ?thesis
    proof (cases "?L ! i")
      case None
      from Suc.IH[OF Suc.prems(1) len] obtain s' where
        "forEach n (notify_one env d) (Suc i) s = Some s'"
        "invoked s' = invoked s @
           map (\<lambda>c. (c, d)) (survivors env (set_values (drop (Suc i) ?L)))"
        by blast
      with True None show ?thesis
        by (intro exI[of _ s']) (simp add: values_drop_step[of i ?L])
    next
      case (Some c)
      let ?ops = "calls (callback env c)"
      let ?s1 = "notify_one env d c s"
      let ?L1 = "listeners ?s1"
      have "c \<in> set (set_values ?L)"
        using True Some by (auto simp: set_set_values intro: nth_mem[of i ?L, simplified Some])
      then have un: "list_all is_unsub ?ops"
        using Suc.prems(1) by (simp add: unsubscribes_only_def list_all_iff)
      then have thin1: "thinned ?L1 ?L"
        by (simp add: notify_one_listeners fold_unsub_listeners)
      have len1: "length ?L1 \<le> Suc i + n"
        using thinned_length[OF thin1] len by simp
      have vals: "set_values (drop (Suc i) ?L1) =
          filter (\<lambda>x. CallUnsubscribe x \<notin> set ?ops) (set_values (drop (Suc i) ?L))"
        by (simp add: notify_one_listeners fold_unsub_values[OF un])
      from Suc.IH[OF unsubscribes_only_thinned[OF Suc.prems(1) thin1] len1] obtain s' where
        "forEach n (notify_one env d) (Suc i) ?s1 = Some s'"
        "invoked s' = invoked ?s1 @
           map (\<lambda>c. (c, d)) (survivors env (set_values (drop (Suc i) ?L1)))"
        by blast
      with True Some show ?thesis
        by (intro exI[of _ s']) (simp add: values_drop_step[of i ?L] notify_one_fields vals)
    qed
  qed
qed

lemma map_pair_inject: "map (\<lambda>c. (c, d)) xs = map (\<lambda>c. (c, d)) ys \<Longrightarrow> xs = ys"
  by (simp add: inj_on_def)

lemma dispatch_general:
  assumes "notifyListeners n env d s = Some s'"
    and "distinct (set_values (listeners s))"
  shows "\<exists>cs. invoked s' = invoked s @ map (\<lambda>c. (c, d)) cs \<and>
           console s' = console s @
             map (\<lambda>c. ConsoleError ''Error in WebSocket listener:'')
               (filter (\<lambda>c. raises (callback env c)) cs) \<and>
           (\<forall>c \<in> set (set_values (listeners s)).
              \<not> unsubscribed_by env cs c \<longrightarrow> count_list cs c = 1) \<and>
           (\<forall>c \<in> set cs. c \<in> set (set_values (listeners s)) \<or> subscribed_by env cs c)"
proof -
  from forEach_general[OF assms(1)[unfolded notifyListeners_def] assms(2)] obtain cs where
    r: "invoked s' = invoked s @ map (\<lambda>c. (c, d)) cs"
       "console s' = console s @
             map (\<lambda>c. ConsoleError ''Error in WebSocket listener:'')
               (filter (\<lambda>c. raises (callback env c)) cs)"
       "\<forall>j c. j < length (listeners s) \<longrightarrow> listeners s ! j = Some c \<longrightarrow>
              \<not> unsubscribed_by env cs c \<longrightarrow> count_list cs c = (if 0 \<le> j then 1 else 0)"
       "\<forall>c \<in> set cs.
              (\<exists>j. 0 \<le> j \<and> j < length (listeners s) \<and> listeners s ! j = Some c) \<or>
              subscribed_by env cs c"
    by blast
  have once: "\<forall>c \<in> set (set_values (listeners s)).
              \<not> unsubscribed_by env cs c \<longrightarrow> count_list cs c = 1"
  proof (intro ballI impI)
    fix c assume "c \<in> set (set_values (listeners s))" "\<not> unsubscribed_by env cs c"
    then obtain j where "j < length (listeners s)" "listeners s ! j = Some c"
      by (auto simp: set_set_values in_set_conv_nth)
    with r(3) \<open>\<not> unsubscribed_by env cs c\<close> show "count_list cs c = 1" by auto
  qed
  have src: "\<forall>c \<in> set cs. c \<in> set (set_values (listeners s)) \<or> subscribed_by env cs c"
  proof
    fix c assume "c \<in> set cs"
    with r(4) consider j where "j < length (listeners s)" "listeners s ! j = Some c"
      | "subscribed_by env cs c" by blast
    then show "c \<in> set (set_values (listeners s)) \<or> subscribed_by env cs c"
    proof cases
      case 1
      then have "Some c \<in> set (listeners s)" by (metis nth_mem)
      then show ?thesis by (simp add: set_set_values)
    next
      case 2
      then show ?thesis by simp
    qed
  qed
  from r(1,2) once src show ?thesis by blast
qed

lemma dispatch_only_unsubscribing:
  assumes "distinct (set_values (listeners s))"
    and "unsubscribes_only env (listeners s)"
    and "length (listeners s) \<le> n"
  shows "\<exists>s'. notifyListeners n env d s = Some s' \<and>
           invoked s' = invoked s @
             map (\<lambda>c. (c, d)) (survivors env (set_values (listeners s))) \<and>
           console s' = console s @
             map (\<lambda>c. ConsoleError ''Error in WebSocket listener:'')
               (filter (\<lambda>c. raises (callback env c)) (survivors env (set_values (listeners s)))) \<and>
           distinct (survivors env (set_values (listeners s))) \<and>
           set (survivors env (set_values (listeners s))) \<subseteq> set (set_values (listeners s)) \<and>
           set (set_values (listeners s')) \<subseteq> set (survivors env (set_values (listeners s))) \<and>
           (\<forall>c' c. c' \<in> set (survivors env (set_values (listeners s))) \<longrightarrow>
              registered_before s c' c \<longrightarrow>
              CallUnsubscribe c \<in> set (calls (callback env c')) \<longrightarrow>
              c \<notin> set (survivors env (set_values (listeners s)))) \<and>
           (registry_untouched env (listeners s) \<longrightarrow>
              survivors env (set_values (listeners s)) = set_values (listeners s))"
proof -
  let ?vs = "set_values (listeners s)"
  from assms(3) have len: "length (listeners s) \<le> 0 + n" by simp
  from forEach_survivors[OF assms(2) len, of d] obtain s' where
    s': "notifyListeners n env d s = Some s'"
        "invoked s' = invoked s @ map (\<lambda>c. (c, d)) (survivors env ?vs)"
    by (auto simp: notifyListeners_def)
  from dispatch_unsubscribes_only[OF assms, of d] s'(1) obtain cs where
    cs: "invoked s' = invoked s @ map (\<lambda>c. (c, d)) cs"
        "console s' = console s @
             map (\<lambda>c. ConsoleError ''Error in WebSocket listener:'')
               (filter (\<lambda>c. raises (callback env c)) cs)"
        "set (set_values (listeners s')) \<subseteq> set cs"
    by auto
  from s'(2) cs(1) have eq: "cs = survivors env ?vs"
    by (auto dest: map_pair_inject)
  have skip: "\<forall>c' c. c' \<in> set (survivors env ?vs) \<longrightarrow> registered_before s c' c \<longrightarrow>
              CallUnsubscribe c \<in> set (calls (callback env c')) \<longrightarrow>
              c \<notin> set (survivors env ?vs)"
    by (auto simp: registered_before_def dest: survivors_skip)
  have all: "registry_untouched env (listeners s) \<longrightarrow> survivors env ?vs = ?vs"
    by (simp add: registry_untouched_def survivors_untouched)
  from s' cs(2,3) skip all survivors_distinct[OF assms(1), of env] survivors_subset[of env ?vs]
  show ?thesis
    unfolding eq by (intro exI[of _ s']) simp
qed

section \<open>The connection manager\<close>

subsection \<open>The reported state and the pending reconnections\<close>

lemma readyState_of_cong:
  "ws s' = ws s \<Longrightarrow> sockets s' = sockets s \<Longrightarrow> readyState_of s' = readyState_of s"
  by (simp add: readyState_of_def split: option.splits)

lemma getConnectionState_cong:
  "ws s' = ws s \<Longrightarrow> sockets s' = sockets s \<Longrightarrow> getConnectionState s' = getConnectionState s"
  using readyState_of_cong[of s' s] by (simp add: getConnectionState_def split: option.splits)

lemma getConnectionState_no_socket: "ws s = None \<Longrightarrow> getConnectionState s = ''DISCONNECTED''"
  by (simp add: getConnectionState_def)

lemma getConnectionState_socket:
  "ws s = Some k \<Longrightarrow> readyState_of s = Some r \<Longrightarrow>
   getConnectionState s =
     (case r of CONNECTING \<Rightarrow> ''CONNECTING'' | OPEN \<Rightarrow> ''CONNECTED''
      | CLOSING \<Rightarrow> ''CLOSING'' | CLOSED \<Rightarrow> ''DISCONNECTED'')"
  by (simp add: getConnectionState_def split: readyState.splits)

lemma connect_when_open: "readyState_of s = Some OPEN \<Longrightarrow> connect s = s"
  by (simp add: connect_def)

lemma pending_reconnects_cong:
  "timers s' = timers s \<Longrightarrow> pending_reconnects s' = pending_reconnects s"
  by (simp add: pending_reconnects_def)

lemma pending_clearInterval: "set (pending_reconnects (clearInterval t s)) \<subseteq> set (pending_reconnects s)"
  by (auto simp: pending_reconnects_def clearInterval_def)

lemma pending_connect: "pending_reconnects (connect s) = pending_reconnects s"
  by (simp add: pending_reconnects_def connect_def new_WebSocket_def)

lemma pending_disconnect: "set (pending_reconnects (disconnect s)) \<subseteq> set (pending_reconnects s)"
  by (auto simp: pending_reconnects_def disconnect_def clearInterval_def ws_close_def Let_def
      split: option.splits)

lemma pending_onopen: "pending_reconnects (onopen s) = pending_reconnects s"
  by (simp add: pending_reconnects_def onopen_def setInterval_def)

lemma pending_heartbeat: "pending_reconnects (heartbeat s) = pending_reconnects s"
  by (simp add: pending_reconnects_def heartbeat_def ws_send_def split: option.splits)

lemma pending_onmessage:
  "onmessage n env payload s = Some s' \<Longrightarrow> pending_reconnects s' = pending_reconnects s"
  by (auto simp: onmessage_def notifyListeners_def pending_reconnects_def
      split: if_splits option.splits dest: forEach_frame)

lemma timeout_is_pending:
  "map_of (timers s) t = Some (Timeout ms) \<Longrightarrow> t \<in> set (pending_reconnects s)"
  by (force simp: pending_reconnects_def dest: map_of_SomeD)

lemma pending_cleared:
  assumes "pending_reconnects s = []"
    and "timers s' = (case p of None \<Rightarrow> timers s | Some t \<Rightarrow> filter (\<lambda>e. fst e \<noteq> t) (timers s))"
  shows "pending_reconnects s' = []"
  using assms by (auto simp: pending_reconnects_def filter_empty_conv split: option.splits)

lemma only_close_schedules:
  assumes "step n env e s = Some s'" and "\<forall>k. e \<noteq> SockClose k"
  shows "set (pending_reconnects s') \<subseteq> set (pending_reconnects s)"
proof (cases e)
  case Connect
  with assms show ?thesis by (auto simp: pending_connect)
next
  case Disconnect
  with assms show ?thesis using pending_disconnect[of s] by auto
next
  case (Subscribe c)
  with assms show ?thesis by (auto simp: pending_reconnects_def subscribe_def)
next
  case (Unsubscribe c)
  with assms show ?thesis by (auto simp: pending_reconnects_def unsubscribe_def)
next
  case (SockOpen k)
  with assms have "s' = onopen (s\<lparr>sockets := (sockets s)[k := OPEN]\<rparr>)"
    by (auto simp: socket_opens_def split: if_splits)
  then have "pending_reconnects s' = pending_reconnects (s\<lparr>sockets := (sockets s)[k := OPEN]\<rparr>)"
    by (simp add: pending_onopen)
  also have "\<dots> = pending_reconnects s"
    by (rule pending_reconnects_cong) simp
  finally show ?thesis by simp
next
  case (SockMessage k p)
  with assms show ?thesis
    by (auto simp: socket_receives_def split: if_splits dest: pending_onmessage)
next
  case (SockError k)
  with assms show ?thesis
    by (auto simp: socket_errors_def onerror_def pending_reconnects_def split: if_splits)
next
  case (SockClose k)
  with assms show ?thesis by simp
next
  case (TimerFire t)
  with assms show ?thesis
    using pending_clearInterval[of t s]
    by (auto simp: timer_fires_def pending_heartbeat pending_connect
        split: option.splits timer.splits)
qed

subsection \<open>The handlers, field by field\<close>

lemma disconnect_fields:
  "isIntentionallyClosed (disconnect s)" "ws (disconnect s) = None"
  "pingInterval (disconnect s) = pingInterval s"
  "timers (disconnect s) =
     (case pingInterval s of None \<Rightarrow> timers s | Some t \<Rightarrow> filter (\<lambda>e. fst e \<noteq> t) (timers s))"
  "reconnectAttempts (disconnect s) = reconnectAttempts s"
  "listeners (disconnect s) = listeners s"
  "length (sockets (disconnect s)) = length (sockets s)"
  by (simp_all add: disconnect_def clearInterval_def ws_close_def Let_def split: option.splits)

lemma onclose_voluntary:
  assumes "isIntentionallyClosed s"
  shows "timers (onclose s) =
     (case pingInterval s of None \<Rightarrow> timers s | Some t \<Rightarrow> filter (\<lambda>e. fst e \<noteq> t) (timers s))"
    and "ws (onclose s) = ws s" and "sockets (onclose s) = sockets s"
    and "reconnectAttempts (onclose s) = reconnectAttempts s"
  using assms by (simp_all add: onclose_def clearInterval_def Let_def split: option.splits)

lemma onclose_involuntary:
  assumes "\<not> isIntentionallyClosed s" and "reconnectAttempts s < maxReconnectAttempts s"
  shows "timers (onclose s) =
     (case pingInterval s of None \<Rightarrow> timers s | Some t \<Rightarrow> filter (\<lambda>e. fst e \<noteq> t) (timers s)) @
     [(nextTimer s, Timeout (reconnectDelay s))]"
    and "reconnectAttempts (onclose s) = Suc (reconnectAttempts s)"
    and "nextTimer (onclose s) = Suc (nextTimer s)"
    and "ws (onclose s) = ws s" and "sockets (onclose s) = sockets s"
    and "isIntentionallyClosed (onclose s) = isIntentionallyClosed s"
  using assms
  by (simp_all add: onclose_def clearInterval_def setTimeout_def Let_def split: option.splits)

lemma onclose_no_retry:
  assumes "isIntentionallyClosed s \<or> \<not> reconnectAttempts s < maxReconnectAttempts s"
  shows "timers (onclose s) =
     (case pingInterval s of None \<Rightarrow> timers s | Some t \<Rightarrow> filter (\<lambda>e. fst e \<noteq> t) (timers s))"
    and "reconnectAttempts (onclose s) = reconnectAttempts s"
    and "ws (onclose s) = ws s" and "sockets (onclose s) = sockets s"
  using assms by (auto simp: onclose_def clearInterval_def Let_def split: option.splits)

lemma heartbeat_cases:
  "readyState_of s = Some OPEN \<Longrightarrow> \<exists>c. ws s = Some c \<and> heartbeat s = s\<lparr>sent := sent s @ [(c, ''ping'')]\<rparr>"
  "readyState_of s \<noteq> Some OPEN \<Longrightarrow> heartbeat s = s"
  by (auto simp: heartbeat_def readyState_of_def ws_send_def split: option.splits)

lemma map_of_fresh_append:
  "list_all (\<lambda>e. fst e < (t::nat)) xs \<Longrightarrow> map_of (xs @ [(t, v)]) t = Some v"
  by (induction xs) auto

lemma filter_fresh:
  "list_all (\<lambda>e. fst e < (t::nat)) xs \<Longrightarrow> filter (\<lambda>e. fst e \<noteq> t) (xs @ [(t, v)]) = xs"
  by (induction xs) auto

lemma all_closed_update:
  assumes "k < length xs" and "list_all (\<lambda>r. r = CLOSED) (take k xs @ drop (Suc k) xs)"
  shows "list_all (\<lambda>r. r = CLOSED) (xs[k := CLOSED])"
  using assms by (simp add: upd_conv_take_nth_drop)

subsection \<open>Invariants of the instance\<close>

lemma well_formed_constructor: "well_formed constructor"
  by (simp add: well_formed_def constructor_def)

lemma well_formed_connect: "well_formed s \<Longrightarrow> well_formed (connect s)"
  by (auto simp: well_formed_def connect_def new_WebSocket_def split: option.splits)

lemma well_formed_disconnect: "well_formed s \<Longrightarrow> well_formed (disconnect s)"
  by (auto simp: well_formed_def disconnect_def clearInterval_def ws_close_def Let_def list_all_iff
      split: option.splits)

lemma well_formed_subscribe: "well_formed s \<Longrightarrow> well_formed (subscribe c s)"
  by (auto simp: well_formed_def subscribe_def set_add_distinct split: option.splits)

lemma well_formed_unsubscribe: "well_formed s \<Longrightarrow> well_formed (unsubscribe c s)"
  by (auto simp: well_formed_def unsubscribe_def set_delete_distinct split: option.splits)

lemma well_formed_onopen: "well_formed s \<Longrightarrow> well_formed (onopen s)"
  by (auto simp: well_formed_def onopen_def setInterval_def list_all_iff split: option.splits)

lemma well_formed_onerror: "well_formed s \<Longrightarrow> well_formed (onerror s)"
  by (auto simp: well_formed_def onerror_def split: option.splits)

lemma well_formed_heartbeat: "well_formed s \<Longrightarrow> well_formed (heartbeat s)"
  by (auto simp: well_formed_def heartbeat_def ws_send_def split: option.splits)

lemma well_formed_onclose: "well_formed s \<Longrightarrow> well_formed (onclose s)"
  by (auto simp: well_formed_def onclose_def clearInterval_def setTimeout_def Let_def list_all_iff
      split: option.splits)

lemma well_formed_clearInterval: "well_formed s \<Longrightarrow> well_formed (clearInterval t s)"
  by (auto simp: well_formed_def clearInterval_def list_all_iff split: option.splits)

lemma well_formed_sockets_update:
  "well_formed s \<Longrightarrow> well_formed (s\<lparr>sockets := (sockets s)[k := r]\<rparr>)"
  by (auto simp: well_formed_def split: option.splits)

lemma well_formed_onmessage:
  assumes "onmessage n env payload s = Some s'" and "well_formed s"
  shows "well_formed s'"
proof (cases "payload = ''pong''")
  case True
  with assms show ?thesis by (simp add: onmessage_def)
next
  case False
  show ?thesis
  proof (cases "JSON_parse env payload")
    case None
    with False assms show ?thesis by (auto simp: onmessage_def well_formed_def split: option.splits)
  next
    case (Some d)
    with False assms(1) have run: "forEach n (notify_one env d) 0 s = Some s'"
      by (simp add: onmessage_def notifyListeners_def)
    from forEach_frame[OF run] forEach_distinct[OF run] assms(2)
    show ?thesis by (auto simp: well_formed_def split: option.splits)
  qed
qed

lemma well_formed_step:
  assumes "step n env e s = Some s'" and "well_formed s"
  shows "well_formed s'"
proof (cases e)
  case Connect
  with assms show ?thesis by (auto simp: well_formed_connect)
next
  case Disconnect
  with assms show ?thesis by (auto simp: well_formed_disconnect)
next
  case (Subscribe c)
  with assms show ?thesis by (auto simp: well_formed_subscribe)
next
  case (Unsubscribe c)
  with assms show ?thesis by (auto simp: well_formed_unsubscribe)
next
  case (SockOpen k)
  with assms show ?thesis
    by (auto simp: socket_opens_def split: if_splits
        intro!: well_formed_onopen well_formed_sockets_update)
next
  case (SockMessage k p)
  with assms show ?thesis
    by (auto simp: socket_receives_def split: if_splits dest: well_formed_onmessage)
next
  case (SockError k)
  with assms show ?thesis
    by (auto simp: socket_errors_def well_formed_onerror split: if_splits)
next
  case (SockClose k)
  with assms show ?thesis
    by (auto simp: socket_closes_def split: if_splits
        intro!: well_formed_onclose well_formed_sockets_update)
next
  case (TimerFire t)
  with assms show ?thesis
    by (auto simp: timer_fires_def split: option.splits timer.splits
        intro!: well_formed_heartbeat well_formed_connect well_formed_clearInterval)
qed

lemma well_formed_run:
  "run n env es s = Some s' \<Longrightarrow> well_formed s \<Longrightarrow> well_formed s'"
proof (induction es arbitrary: s)
  case Nil
  then show ?case by simp
next
  case (Cons e es)
  then obtain s1 where "step n env e s = Some s1" "run n env es s1 = Some s'"
    by (auto split: option.splits)
  with Cons show ?case by (blast intro: well_formed_step)
qed

lemma reachable_well_formed: "run n env es constructor = Some s \<Longrightarrow> well_formed s"
  by (rule well_formed_run[OF _ well_formed_constructor])

subsection \<open>Failed connection attempts\<close>

lemma failed_attempt:
  assumes wf: "well_formed s" and live: "session_live c s" and c: "c < 5"
  shows "\<exists>s1 s2. close_current s = Some s1 \<and> pending_reconnects s1 = [nextTimer s] \<and>
           fire_reconnect s1 = Some s2 \<and> well_formed s2 \<and> session_live (Suc c) s2 \<and>
           length (sockets s2) = Suc (length (sockets s)) \<and>
           getConnectionState s2 = ''CONNECTING''"
proof -
  from live obtain k where k: "ws s = Some k" "k < length (sockets s)" "sockets s ! k \<noteq> CLOSED"
      "list_all (\<lambda>r. r = CLOSED) (take k (sockets s) @ drop (Suc k) (sockets s))"
    by (auto simp: session_live_def split: option.splits)
  from live have flag: "\<not> isIntentionallyClosed s" and cnt: "reconnectAttempts s = c"
    and nopend: "pending_reconnects s = []"
    by (simp_all add: session_live_def)
  from wf have mx: "maxReconnectAttempts s = 5" and fresh: "list_all (\<lambda>e. fst e < nextTimer s) (timers s)"
    by (simp_all add: well_formed_def)
  let ?x = "s\<lparr>sockets := (sockets s)[k := CLOSED]\<rparr>"
  let ?s1 = "onclose ?x"
  let ?F = "case pingInterval s of None \<Rightarrow> timers s | Some t \<Rightarrow> filter (\<lambda>e. fst e \<noteq> t) (timers s)"
  have close: "close_current s = Some ?s1"
    using k by (simp add: close_current_def socket_closes_def)
  have "\<not> isIntentionallyClosed ?x" "reconnectAttempts ?x < maxReconnectAttempts ?x"
    using flag cnt mx c by simp_all
  note oc = onclose_involuntary[OF this]
  have t1: "timers ?s1 = ?F @ [(nextTimer s, Timeout (reconnectDelay s))]"
    using oc(1) by (simp cong: option.case_cong)
  have Ffresh: "list_all (\<lambda>e. fst e < nextTimer s) ?F"
    using fresh by (auto simp: list_all_iff split: option.splits)
  have Fpend: "map fst (filter (\<lambda>e. case snd e of Interval ms \<Rightarrow> False | Timeout ms \<Rightarrow> True) ?F) = []"
    using nopend by (auto simp: pending_reconnects_def filter_empty_conv split: option.splits)
  have p1: "pending_reconnects ?s1 = [nextTimer s]"
    using Fpend by (simp add: pending_reconnects_def t1)
  have look: "map_of (timers ?s1) (nextTimer s) = Some (Timeout (reconnectDelay s))"
    using Ffresh by (simp only: t1 map_of_fresh_append)
  let ?y = "clearInterval (nextTimer s) ?s1"
  let ?s2 = "connect ?y"
  have fire: "fire_reconnect ?s1 = Some ?s2"
    by (simp add: fire_reconnect_def p1 timer_fires_def look)
  have y: "ws ?y = Some k" "sockets ?y = (sockets s)[k := CLOSED]" "timers ?y = ?F"
    "\<not> isIntentionallyClosed ?y" "reconnectAttempts ?y = Suc c"
    using oc(2,4,5,6) k(1) flag cnt filter_fresh[OF Ffresh]
    by (simp_all add: clearInterval_def t1)
  have ry: "readyState_of ?y = Some CLOSED"
    using k(2) by (simp add: readyState_of_def y)
  have s2: "ws ?s2 = Some (length (sockets s))"
    "sockets ?s2 = (sockets s)[k := CLOSED] @ [CONNECTING]"
    "timers ?s2 = ?F" "\<not> isIntentionallyClosed ?s2" "reconnectAttempts ?s2 = Suc c"
    using ry y by (simp_all add: connect_def new_WebSocket_def)
  have wf1: "well_formed ?s1"
    by (intro well_formed_onclose well_formed_sockets_update wf)
  have wf2: "well_formed ?s2"
    by (intro well_formed_connect well_formed_clearInterval wf1)
  have "pending_reconnects ?s2 = []"
    using Fpend by (simp add: pending_reconnects_def s2)
  moreover have "list_all (\<lambda>r. r = CLOSED) ((sockets s)[k := CLOSED])"
    by (rule all_closed_update[OF k(2,4)])
  ultimately have live2: "session_live (Suc c) ?s2"
    by (simp add: session_live_def s2 nth_append)
  have "readyState_of ?s2 = Some CONNECTING"
    by (simp add: readyState_of_def s2 nth_append)
  then have st: "getConnectionState ?s2 = ''CONNECTING''"
    by (simp add: getConnectionState_socket[OF s2(1)])
  from close p1 fire wf2 live2 st show ?thesis
    by (intro exI[of _ ?s1] exI[of _ ?s2]) (simp add: s2)
qed

lemma failed_attempts:
  assumes "well_formed s" and "session_live c s" and "c + m \<le> 5"
  shows "\<exists>s'. close_and_retry m s = Some s' \<and> well_formed s' \<and> session_live (c + m) s' \<and>
           length (sockets s') = length (sockets s) + m \<and>
           (0 < m \<longrightarrow> getConnectionState s' = ''CONNECTING'')"
  using assms
proof (induction m arbitrary: c s)
  case 0
  then show ?case by simp
next
  case (Suc m)
  from Suc.prems have "c < 5" by simp
  from failed_attempt[OF Suc.prems(1,2) this] obtain s1 s2 where
    r: "close_current s = Some s1" "fire_reconnect s1 = Some s2" "well_formed s2"
       "session_live (Suc c) s2" "length (sockets s2) = Suc (length (sockets s))"
       "getConnectionState s2 = ''CONNECTING''"
    by blast
  from Suc.prems have "Suc c + m \<le> 5" by simp
  from Suc.IH[OF r(3,4) this] obtain s' where
    s': "close_and_retry m s2 = Some s'" "well_formed s'" "session_live (Suc c + m) s'"
        "length (sockets s') = length (sockets s2) + m"
        "0 < m \<longrightarrow> getConnectionState s' = ''CONNECTING''"
    by blast
  have "m = 0 \<longrightarrow> s' = s2" using s'(1) by auto
  with r(6) s'(5) have "getConnectionState s' = ''CONNECTING''" by (cases m) auto
  with r s' show ?case by simp
qed

lemma last_close_gives_up:
  assumes wf: "well_formed s" and live: "session_live 5 s"
  shows "\<exists>s'. close_current s = Some s' \<and> well_formed s' \<and> quiescent s' \<and>
           reconnectAttempts s' = 5 \<and> length (sockets s') = length (sockets s)"
proof -
  from live obtain k where k: "ws s = Some k" "k < length (sockets s)" "sockets s ! k \<noteq> CLOSED"
      "list_all (\<lambda>r. r = CLOSED) (take k (sockets s) @ drop (Suc k) (sockets s))"
    by (auto simp: session_live_def split: option.splits)
  from live have cnt: "reconnectAttempts s = 5" and nopend: "pending_reconnects s = []"
    by (simp_all add: session_live_def)
  from wf have mx: "maxReconnectAttempts s = 5"
    by (simp add: well_formed_def)
  let ?x = "s\<lparr>sockets := (sockets s)[k := CLOSED]\<rparr>"
  let ?s1 = "onclose ?x"
  have close: "close_current s = Some ?s1"
    using k by (simp add: close_current_def socket_closes_def)
  have "isIntentionallyClosed ?x \<or> \<not> reconnectAttempts ?x < maxReconnectAttempts ?x"
    using cnt mx by simp
  note oc = onclose_no_retry[OF this]
  have "pending_reconnects ?s1 = []"
    by (rule pending_cleared[OF nopend, of _ "pingInterval s"])
       (use oc(1) in \<open>simp cong: option.case_cong\<close>)
  moreover have "list_all (\<lambda>r. r = CLOSED) (sockets ?s1)"
    using all_closed_update[OF k(2,4)] by (simp add: oc(4))
  moreover have "ws ?s1 = Some k" "length (sockets ?s1) = length (sockets s)"
    using k(1) by (simp_all add: oc(3,4))
  ultimately have "quiescent ?s1"
    using k(2) by (simp add: quiescent_def)
  moreover have "well_formed ?s1"
    by (intro well_formed_onclose well_formed_sockets_update wf)
  moreover have "reconnectAttempts ?s1 = 5"
    using cnt by (simp add: oc(2))
  ultimately show ?thesis using close by (intro exI[of _ ?s1]) (simp add: oc(4))
qed

lemma quiescent_state: "quiescent s \<Longrightarrow> getConnectionState s = ''DISCONNECTED''"
  by (auto simp: quiescent_def getConnectionState_def readyState_of_def list_all_length
      split: option.splits readyState.splits)

lemma quiescent_step:
  assumes q: "quiescent s" and st: "step n env e s = Some s'" and e: "e \<noteq> Connect"
  shows "quiescent s' \<and> length (sockets s') = length (sockets s)"
proof (cases e)
  case Connect
  with e show ?thesis by simp
next
  case Disconnect
  with st have s': "s' = disconnect s" by simp
  have "set (pending_reconnects s') \<subseteq> set (pending_reconnects s)"
    unfolding s' by (rule pending_disconnect)
  with q have "pending_reconnects s' = []" by (simp add: quiescent_def)
  moreover have "sockets s' = sockets s"
    using q unfolding s'
    by (auto simp: quiescent_def disconnect_def clearInterval_def ws_close_def Let_def
        list_all_length list_update_same_conv split: option.splits)
  ultimately show ?thesis using q by (simp add: quiescent_def s' disconnect_fields)
next
  case (Subscribe c)
  with q st show ?thesis by (auto simp: quiescent_def subscribe_def pending_reconnects_def split: option.splits)
next
  case (Unsubscribe c)
  with q st show ?thesis by (auto simp: quiescent_def unsubscribe_def pending_reconnects_def split: option.splits)
next
  case (SockOpen k)
  with q st show ?thesis
    by (auto simp: quiescent_def socket_opens_def list_all_length split: if_splits)
next
  case (SockMessage k p)
  with q st show ?thesis
    by (auto simp: quiescent_def socket_receives_def list_all_length split: if_splits)
next
  case (SockError k)
  with q st show ?thesis
    by (auto simp: quiescent_def socket_errors_def list_all_length split: if_splits)
next
  case (SockClose k)
  with q st show ?thesis
    by (auto simp: quiescent_def socket_closes_def list_all_length split: if_splits)
next
  case (TimerFire t)
  show ?thesis
  proof (cases "map_of (timers s) t")
    case None
    with TimerFire st show ?thesis by (simp add: timer_fires_def)
  next
    case (Some v)
    show ?thesis
    proof (cases v)
      case (Interval ms)
      with Some TimerFire st have s': "s' = heartbeat s" by (simp add: timer_fires_def)
      have "readyState_of s \<noteq> Some OPEN"
        using q by (auto simp: quiescent_def readyState_of_def list_all_length split: option.splits)
      then have "heartbeat s = s" by (rule heartbeat_cases(2))
      with q s' show ?thesis by simp
    next
      case (Timeout ms)
      with Some have "t \<in> set (pending_reconnects s)" by (simp add: timeout_is_pending)
      with q show ?thesis by (simp add: quiescent_def)
    qed
  qed
qed

lemma quiescent_run:
  "quiescent s \<Longrightarrow> run n env es s = Some s' \<Longrightarrow> Connect \<notin> set es \<Longrightarrow>
   quiescent s' \<and> length (sockets s') = length (sockets s)"
proof (induction es arbitrary: s)
  case Nil
  then show ?case by simp
next
  case (Cons e es)
  from Cons.prems(2) obtain s1 where s1: "step n env e s = Some s1" "run n env es s1 = Some s'"
    by (auto split: option.splits)
  from Cons.prems(3) have e: "e \<noteq> Connect" "Connect \<notin> set es" by auto
  from quiescent_step[OF Cons.prems(1) s1(1) e(1)]
  have q1: "quiescent s1" and l1: "length (sockets s1) = length (sockets s)" by simp_all
  from Cons.IH[OF q1 s1(2) e(2)] l1 show ?case by simp
qed

subsection \<open>The example inputs\<close>

lemmas trace_defs =
  fresh_client_def constructor_def connect_def disconnect_def onopen_def onclose_def
  heartbeat_def readyState_of_def new_WebSocket_def ws_close_def ws_send_def
  setInterval_def setTimeout_def clearInterval_def subscribe_def unsubscribe_def
  set_add_def set_delete_def socket_opens_def socket_closes_def socket_errors_def
  timer_fires_def getConnectionState_def pending_reconnects_def

lemma connected_client_reached:
  "run 0 sample_env [Subscribe 3, Subscribe 4, Connect, SockOpen 0] constructor =
     Some connected_client"
  by (simp add: connected_client_def trace_defs)

lemma connected_client_well_formed: "well_formed connected_client"
  by (rule reachable_well_formed[OF connected_client_reached])

lemma resubscribing_listener_never_finishes:
  "listeners s = replicate k None @ [Some 8] \<Longrightarrow>
   forEach n (notify_one sample_env d) k s = None"
proof (induction n arbitrary: k s)
  case 0
  then show ?case by simp
next
  case (Suc n)
  let ?s1 = "notify_one sample_env d 8 s"
  have "listeners ?s1 = replicate (Suc k) None @ [Some 8]"
    using Suc.prems
    by (simp add: notify_one_listeners sample_env_def subscribe_def unsubscribe_def
        set_add_def set_delete_def replicate_append_same)
  from Suc.IH[OF this] have "forEach n (notify_one sample_env d) (Suc k) ?s1 = None" .
  moreover have "k < length (listeners s)" "listeners s ! k = Some 8"
    using Suc.prems by (simp_all add: nth_append)
  ultimately show ?case by simp
qed

lemma dispatch_may_not_finish:
  "notifyListeners n sample_env 42 (subscribe 8 fresh_client) = None"
  by (simp add: notifyListeners_def
      resubscribing_listener_never_finishes[where k = 0, simplified]
      subscribe_def set_add_def fresh_client_def constructor_def)

section \<open>The claims\<close>

text \<open>
  C1. The claim: \<^verbatim>\<open>disconnect()\<close> called while a reconnection is pending prevents it, no
  connection attempt follows and the state stays \<^verbatim>\<open>DISCONNECTED\<close>. The code at the
  following input: an open connection is closed by the server, which schedules a
  reconnection (timer 2); the application calls \<^verbatim>\<open>disconnect()\<close>, after which the timer is
  still pending; the timer fires, \<^verbatim>\<open>connect()\<close> clears the flag and creates a second socket,
  and the state read is \<^verbatim>\<open>CONNECTING\<close>.
\<close>

theorem pending_reconnect_survives_disconnect:
  "map_option pending_reconnects
     (run 0 sample_env [Connect, SockOpen 0, SockClose 0, Disconnect] fresh_client) = Some [2] \<and>
   map_option getConnectionState
     (run 0 sample_env [Connect, SockOpen 0, SockClose 0, Disconnect] fresh_client) =
     Some ''DISCONNECTED'' \<and>
   map_option sockets
     (run 0 sample_env [Connect, SockOpen 0, SockClose 0, Disconnect, TimerFire 2] fresh_client) =
     Some [CLOSED, CONNECTING] \<and>
   map_option isIntentionallyClosed
     (run 0 sample_env [Connect, SockOpen 0, SockClose 0, Disconnect, TimerFire 2] fresh_client) =
     Some False \<and>
   map_option getConnectionState
     (run 0 sample_env [Connect, SockOpen 0, SockClose 0, Disconnect, TimerFire 2] fresh_client) =
     Some ''CONNECTING''"
  by (simp add: trace_defs)

text \<open>
  C2. The claim: \<^verbatim>\<open>connect()\<close> is a no-op while the current socket is connecting or open,
  so that one socket exists at most. The code at the following input: \<^verbatim>\<open>connect()\<close> is
  called twice in a row. The guard of \<^verbatim>\<open>connect\<close> tests for \<^verbatim>\<open>OPEN\<close> only, so the second
  call creates a second socket while the first is still connecting; the first is not
  closed, both open later, each open starts a heartbeat timer of its own, and a frame
  that arrives on the first socket is still dispatched to the listeners.
\<close>

theorem connect_while_connecting_creates_second_socket:
  "map_option sockets (run 0 sample_env [Connect] fresh_client) = Some [CONNECTING] \<and>
   map_option sockets (run 0 sample_env [Connect, Connect] fresh_client) =
     Some [CONNECTING, CONNECTING] \<and>
   map_option ws (run 0 sample_env [Connect, Connect] fresh_client) = Some (Some 1) \<and>
   map_option sockets (run 0 sample_env [Connect, Connect, SockOpen 0, SockOpen 1] fresh_client) =
     Some [OPEN, OPEN] \<and>
   map_option timers (run 0 sample_env [Connect, Connect, SockOpen 0, SockOpen 1] fresh_client) =
     Some [(1, Interval 30000), (2, Interval 30000)] \<and>
   map_option invoked
     (run 1 sample_env [Subscribe 4, Connect, Connect, SockOpen 0, SockOpen 1,
        SockMessage 0 ''42'', SockMessage 1 ''42''] fresh_client) =
     Some [(4, 42), (4, 42)]"
  by (simp add: trace_defs socket_receives_def onmessage_def notifyListeners_def notify_one_def
      call_listener_def sample_env_def)

text \<open>
  C3. The claim: whatever subscriptions and unsubscriptions happen, also from inside a
  listener during a dispatch, every listener registered at the moment a message is
  dispatched is invoked exactly once for it, and no listener removed before the dispatch
  is invoked for it. The dispatch iterates the live set. The iteration of a set skips an
  entry deleted before it is reached: with listeners 6 and 7 registered, where listener 6
  unsubscribes listener 7 when it is called, the dispatch of a message invokes listener
  6 only. And it visits an entry added while it runs: with listeners 10 and 9
  registered, where listener 9 unsubscribes listener 10 and subscribes it again,
  listener 10 is invoked twice; and with listener 12 subscribed and unsubscribed and
  then listener 11 subscribed, which subscribes listener 12 when it is called, listener
  12, removed before the dispatch, is invoked.
\<close>

theorem listener_unsubscribed_during_dispatch_is_skipped:
  "set_values (listeners (subscribe 7 (subscribe 6 fresh_client))) = [6, 7] \<and>
   map_option invoked (notifyListeners 2 sample_env 42 (subscribe 7 (subscribe 6 fresh_client))) =
     Some [(6, 42)] \<and>
   set_values (listeners (subscribe 9 (subscribe 10 fresh_client))) = [10, 9] \<and>
   map_option invoked (notifyListeners 3 sample_env 42 (subscribe 9 (subscribe 10 fresh_client))) =
     Some [(10, 42), (9, 42), (10, 42)] \<and>
   set_values (listeners (subscribe 11 (unsubscribe 12 (subscribe 12 fresh_client)))) = [11] \<and>
   map_option invoked
     (notifyListeners 3 sample_env 42 (subscribe 11 (unsubscribe 12 (subscribe 12 fresh_client)))) =
     Some [(11, 42), (12, 42)]"
  by (simp add: notifyListeners_def notify_one_def call_listener_def sample_env_def trace_defs
      numeral_2_eq_2 numeral_3_eq_3)

text \<open>
  C3, amended. After any sequence of events, a call of \<^verbatim>\<open>subscribe\<close> adds the listener to
  those registered and a call of its unsubscribe handle removes it. Whatever the
  listeners do from inside their calls, subscriptions included: whenever the dispatch of
  a message returns, every listener registered at the moment of the dispatch that no
  listener invoked during it unsubscribes has been invoked exactly once for the message,
  and every listener invoked was registered at that moment or was subscribed by a listener
  invoked during the dispatch (so a listener removed before the dispatch and not
  subscribed again during it is not invoked). Where the registered listeners, if they
  call back into the registry at all, only unsubscribe, the dispatch returns, and the
  listeners it invokes are, in the order of registration and once each, exactly those
  that no listener invoked before them has unsubscribed: a listener unsubscribed during
  the dispatch before its turn is skipped, and the listeners still registered when the
  dispatch ends have all been invoked. Where no listener touches the registry, these
  are all the registered listeners.
\<close>

theorem dispatch_over_the_live_set:
  assumes "run m env es constructor = Some s"
  shows "set (set_values (listeners (subscribe c s))) = insert c (set (set_values (listeners s))) \<and>
     set (set_values (listeners (unsubscribe c s))) = set (set_values (listeners s)) - {c} \<and>
     (\<forall>s'. notifyListeners n env d s = Some s' \<longrightarrow>
        (\<exists>cs. invoked s' = invoked s @ map (\<lambda>c. (c, d)) cs \<and>
           (\<forall>c \<in> set (set_values (listeners s)).
              \<not> unsubscribed_by env cs c \<longrightarrow> count_list cs c = 1) \<and>
           (\<forall>c \<in> set cs. c \<in> set (set_values (listeners s)) \<or> subscribed_by env cs c))) \<and>
     (unsubscribes_only env (listeners s) \<longrightarrow> length (listeners s) \<le> n \<longrightarrow>
        (\<exists>s'. notifyListeners n env d s = Some s' \<and>
           invoked s' = invoked s @
             map (\<lambda>c. (c, d)) (survivors env (set_values (listeners s))) \<and>
           distinct (survivors env (set_values (listeners s))) \<and>
           set (survivors env (set_values (listeners s))) \<subseteq> set (set_values (listeners s)) \<and>
           set (set_values (listeners s')) \<subseteq> set (survivors env (set_values (listeners s))) \<and>
           (\<forall>c' c. c' \<in> set (survivors env (set_values (listeners s))) \<longrightarrow>
              registered_before s c' c \<longrightarrow>
              CallUnsubscribe c \<in> set (calls (callback env c')) \<longrightarrow>
              c \<notin> set (survivors env (set_values (listeners s)))) \<and>
           (registry_untouched env (listeners s) \<longrightarrow>
              survivors env (set_values (listeners s)) = set_values (listeners s))))"
proof -
  from reachable_well_formed[OF assms] have dist: "distinct (set_values (listeners s))"
    by (simp add: well_formed_def)
  have general: "\<forall>s'. notifyListeners n env d s = Some s' \<longrightarrow>
        (\<exists>cs. invoked s' = invoked s @ map (\<lambda>c. (c, d)) cs \<and>
           (\<forall>c \<in> set (set_values (listeners s)).
              \<not> unsubscribed_by env cs c \<longrightarrow> count_list cs c = 1) \<and>
           (\<forall>c \<in> set cs. c \<in> set (set_values (listeners s)) \<or> subscribed_by env cs c))"
  proof (intro allI impI)
    fix s' assume "notifyListeners n env d s = Some s'"
    from dispatch_general[OF this dist]
    show "\<exists>cs. invoked s' = invoked s @ map (\<lambda>c. (c, d)) cs \<and>
           (\<forall>c \<in> set (set_values (listeners s)).
              \<not> unsubscribed_by env cs c \<longrightarrow> count_list cs c = 1) \<and>
           (\<forall>c \<in> set cs. c \<in> set (set_values (listeners s)) \<or> subscribed_by env cs c)"
      by blast
  qed
  have total: "unsubscribes_only env (listeners s) \<longrightarrow> length (listeners s) \<le> n \<longrightarrow>
        (\<exists>s'. notifyListeners n env d s = Some s' \<and>
           invoked s' = invoked s @
             map (\<lambda>c. (c, d)) (survivors env (set_values (listeners s))) \<and>
           distinct (survivors env (set_values (listeners s))) \<and>
           set (survivors env (set_values (listeners s))) \<subseteq> set (set_values (listeners s)) \<and>
           set (set_values (listeners s')) \<subseteq> set (survivors env (set_values (listeners s))) \<and>
           (\<forall>c' c. c' \<in> set (survivors env (set_values (listeners s))) \<longrightarrow>
              registered_before s c' c \<longrightarrow>
              CallUnsubscribe c \<in> set (calls (callback env c')) \<longrightarrow>
              c \<notin> set (survivors env (set_values (listeners s)))) \<and>
           (registry_untouched env (listeners s) \<longrightarrow>
              survivors env (set_values (listeners s)) = set_values (listeners s)))"
  proof (intro impI)
    assume h: "unsubscribes_only env (listeners s)" "length (listeners s) \<le> n"
    from dispatch_only_unsubscribing[OF dist h, of d] obtain s' where
      "notifyListeners n env d s = Some s'"
      "invoked s' = invoked s @ map (\<lambda>c. (c, d)) (survivors env (set_values (listeners s)))"
      "distinct (survivors env (set_values (listeners s)))"
      "set (survivors env (set_values (listeners s))) \<subseteq> set (set_values (listeners s))"
      "set (set_values (listeners s')) \<subseteq> set (survivors env (set_values (listeners s)))"
      "\<forall>c' c. c' \<in> set (survivors env (set_values (listeners s))) \<longrightarrow>
              registered_before s c' c \<longrightarrow>
              CallUnsubscribe c \<in> set (calls (callback env c')) \<longrightarrow>
              c \<notin> set (survivors env (set_values (listeners s)))"
      "registry_untouched env (listeners s) \<longrightarrow>
              survivors env (set_values (listeners s)) = set_values (listeners s)"
      by blast
    then show "\<exists>s'. notifyListeners n env d s = Some s' \<and>
           invoked s' = invoked s @
             map (\<lambda>c. (c, d)) (survivors env (set_values (listeners s))) \<and>
           distinct (survivors env (set_values (listeners s))) \<and>
           set (survivors env (set_values (listeners s))) \<subseteq> set (set_values (listeners s)) \<and>
           set (set_values (listeners s')) \<subseteq> set (survivors env (set_values (listeners s))) \<and>
           (\<forall>c' c. c' \<in> set (survivors env (set_values (listeners s))) \<longrightarrow>
              registered_before s c' c \<longrightarrow>
              CallUnsubscribe c \<in> set (calls (callback env c')) \<longrightarrow>
              c \<notin> set (survivors env (set_values (listeners s)))) \<and>
           (registry_untouched env (listeners s) \<longrightarrow>
              survivors env (set_values (listeners s)) = set_values (listeners s))"
      by (intro exI[of _ s'] conjI)
  qed
  from general total show ?thesis
    by (simp only: registered_after_subscribe registered_after_unsubscribe simp_thms)
qed

theorem dispatch_over_the_live_set_witness:
  "run 0 sample_env [Subscribe 6, Subscribe 7, Subscribe 4] constructor =
     Some (subscribe 4 (subscribe 7 (subscribe 6 fresh_client))) \<and>
   unsubscribes_only sample_env (listeners (subscribe 4 (subscribe 7 (subscribe 6 fresh_client)))) \<and>
   registered_before (subscribe 4 (subscribe 7 (subscribe 6 fresh_client))) 6 7 \<and>
   (\<exists>s'. notifyListeners 3 sample_env 42 (subscribe 4 (subscribe 7 (subscribe 6 fresh_client))) =
        Some s' \<and>
      invoked s' = [(6, 42), (4, 42)] \<and> set (set_values (listeners s')) \<subseteq> {6, 4}) \<and>
   run 0 sample_env [Subscribe 12, Unsubscribe 12, Subscribe 11] constructor =
     Some (subscribe 11 (unsubscribe 12 (subscribe 12 fresh_client))) \<and>
   (\<exists>s' cs. notifyListeners 3 sample_env 42
        (subscribe 11 (unsubscribe 12 (subscribe 12 fresh_client))) = Some s' \<and>
      invoked s' = map (\<lambda>c. (c, 42)) cs \<and> count_list cs 11 = 1 \<and> subscribed_by sample_env cs 12)"
proof -
  let ?a = "subscribe 4 (subscribe 7 (subscribe 6 fresh_client))"
  let ?b = "subscribe 11 (unsubscribe 12 (subscribe 12 fresh_client))"
  have ra: "run 0 sample_env [Subscribe 6, Subscribe 7, Subscribe 4] constructor = Some ?a"
    by (simp add: fresh_client_def)
  have rb: "run 0 sample_env [Subscribe 12, Unsubscribe 12, Subscribe 11] constructor = Some ?b"
    by (simp add: fresh_client_def)
  have a: "listeners ?a = [Some 6, Some 7, Some 4]" "invoked ?a = []"
    by (simp_all add: subscribe_def set_add_def fresh_client_def constructor_def)
  have b: "listeners ?b = [None, Some 11]" "invoked ?b = []"
    by (simp_all add: subscribe_def unsubscribe_def set_add_def set_delete_def fresh_client_def
        constructor_def)
  have ua: "unsubscribes_only sample_env (listeners ?a)"
    by (simp only: a) (simp add: unsubscribes_only_def sample_env_def is_unsub_def)
  have la: "length (listeners ?a) \<le> 3"
    by (simp only: a) simp
  have before: "registered_before ?a 6 7"
    unfolding registered_before_def by (simp only: a) simp
  have surv: "survivors sample_env (set_values (listeners ?a)) = [6, 4]"
    by (simp only: a) (simp add: sample_env_def)
  note Ta = dispatch_over_the_live_set[OF ra, where n = 3 and d = 42]
  from Ta[THEN conjunct2, THEN conjunct2, THEN conjunct2, THEN mp, THEN mp, OF ua la]
  obtain s' where o: "notifyListeners 3 sample_env 42 ?a = Some s'"
    "invoked s' = invoked ?a @
       map (\<lambda>c. (c, 42)) (survivors sample_env (set_values (listeners ?a)))"
    "set (set_values (listeners s')) \<subseteq> set (survivors sample_env (set_values (listeners ?a)))"
    by (elim exE conjE) (rule that)
  from o(2) have o2: "invoked s' = [(6, 42), (4, 42)]"
    unfolding surv a(2) by simp
  from o(3) have o3: "set (set_values (listeners s')) \<subseteq> {6, 4}"
    unfolding surv by simp
  from o(1) o2 o3
  have A: "\<exists>s'. notifyListeners 3 sample_env 42 ?a = Some s' \<and>
      invoked s' = [(6, 42), (4, 42)] \<and> set (set_values (listeners s')) \<subseteq> {6, 4}"
    by (intro exI[of _ s'] conjI)
  have "map_option invoked (notifyListeners 3 sample_env 42 ?b) = Some [(11, 42), (12, 42)]"
    by (simp add: notifyListeners_def notify_one_def call_listener_def sample_env_def trace_defs
        numeral_3_eq_3)
  then obtain t where t: "notifyListeners 3 sample_env 42 ?b = Some t"
    "invoked t = [(11, 42), (12, 42)]"
    by auto
  note Tb = dispatch_over_the_live_set[OF rb, where n = 3 and d = 42]
  from Tb[THEN conjunct2, THEN conjunct2, THEN conjunct1, THEN spec, THEN mp, OF t(1)]
  obtain cs where cs: "invoked t = invoked ?b @ map (\<lambda>c. (c, 42)) cs"
    "\<forall>c \<in> set (set_values (listeners ?b)).
       \<not> unsubscribed_by sample_env cs c \<longrightarrow> count_list cs c = 1"
    "\<forall>c \<in> set cs. c \<in> set (set_values (listeners ?b)) \<or> subscribed_by sample_env cs c"
    by (elim exE conjE) (rule that)
  from cs(1) t(2) have "map (\<lambda>c. (c, 42::nat)) cs = map (\<lambda>c. (c, 42)) [11, 12]"
    by (simp only: b) simp
  then have eq: "cs = [11, 12]" by (rule map_pair_inject)
  have nu: "\<not> unsubscribed_by sample_env [11, 12] 11"
    by (simp add: unsubscribed_by_def sample_env_def)
  have reg: "11 \<in> set (set_values (listeners ?b))"
    by (simp only: b) simp
  have nreg: "12 \<notin> set (set_values (listeners ?b))"
    by (simp only: b) simp
  from cs(2)[unfolded eq, THEN bspec, OF reg, THEN mp, OF nu]
  have c11: "count_list cs 11 = 1"
    by (simp only: eq)
  have "12 \<in> set [11, 12::nat]" by simp
  from cs(3)[unfolded eq, THEN bspec, OF this] nreg
  have s12: "subscribed_by sample_env cs 12"
    by (simp only: eq) simp
  from cs(1) have inv: "invoked t = map (\<lambda>c. (c, 42)) cs"
    by (simp only: b) simp
  from t(1) inv c11 s12
  have B: "\<exists>s' cs. notifyListeners 3 sample_env 42 ?b = Some s' \<and>
      invoked s' = map (\<lambda>c. (c, 42)) cs \<and> count_list cs 11 = 1 \<and> subscribed_by sample_env cs 12"
    by (intro exI[of _ t] exI[of _ cs] conjI)
  from ra ua before A rb B show ?thesis by (intro conjI)
qed

text \<open>
  C4. The claim: after exactly 5 consecutive involuntary closes, with no successful open
  and no explicit call in between, no further automatic reconnection attempt occurs and
  the state stays \<^verbatim>\<open>DISCONNECTED\<close>. The handler counts reconnections, not closes: it
  schedules one while the counter is below 5, so the fifth close still schedules the
  fifth reconnection. For the instance as constructed and connected once, the fifth
  close leaves timer 5 pending, and when it fires a sixth socket is connecting.
\<close>

theorem fifth_close_still_reconnects:
  "map_option pending_reconnects
     (run 0 sample_env
        [Connect, SockClose 0, TimerFire 1, SockClose 1, TimerFire 2, SockClose 2,
         TimerFire 3, SockClose 3, TimerFire 4, SockClose 4] fresh_client) = Some [5] \<and>
   map_option sockets
     (run 0 sample_env
        [Connect, SockClose 0, TimerFire 1, SockClose 1, TimerFire 2, SockClose 2,
         TimerFire 3, SockClose 3, TimerFire 4, SockClose 4, TimerFire 5] fresh_client) =
     Some [CLOSED, CLOSED, CLOSED, CLOSED, CLOSED, CONNECTING] \<and>
   map_option getConnectionState
     (run 0 sample_env
        [Connect, SockClose 0, TimerFire 1, SockClose 1, TimerFire 2, SockClose 2,
         TimerFire 3, SockClose 3, TimerFire 4, SockClose 4, TimerFire 5] fresh_client) =
     Some ''CONNECTING''"
  by (simp add: trace_defs)

text \<open>
  C4, amended. From a state with one live session, the counter at 0 and nothing pending,
  five rounds of an involuntary close of the current socket followed by the firing of
  the reconnection it scheduled all take place: each creates a new socket, and after the
  fifth the counter is 5 and a socket is connecting. The sixth consecutive close
  schedules nothing: no reconnection is pending, the state read is \<^verbatim>\<open>DISCONNECTED\<close>,
  and whatever happens next, short of an explicit \<^verbatim>\<open>connect()\<close>, no reconnection becomes
  pending, no socket is created and the state read stays \<^verbatim>\<open>DISCONNECTED\<close>.
\<close>

theorem reconnection_stops_after_sixth_close:
  assumes "well_formed s" and "session_live 0 s"
  shows "\<exists>s5 s6. close_and_retry 5 s = Some s5 \<and>
           length (sockets s5) = length (sockets s) + 5 \<and>
           reconnectAttempts s5 = 5 \<and>
           getConnectionState s5 = ''CONNECTING'' \<and>
           close_current s5 = Some s6 \<and>
           pending_reconnects s6 = [] \<and>
           getConnectionState s6 = ''DISCONNECTED'' \<and>
           (\<forall>n env es s'. Connect \<notin> set es \<longrightarrow> run n env es s6 = Some s' \<longrightarrow>
              pending_reconnects s' = [] \<and>
              getConnectionState s' = ''DISCONNECTED'' \<and>
              length (sockets s') = length (sockets s6))"
proof -
  from failed_attempts[OF assms, of 5] obtain s5 where
    s5: "close_and_retry 5 s = Some s5" "well_formed s5" "session_live 5 s5"
        "length (sockets s5) = length (sockets s) + 5" "getConnectionState s5 = ''CONNECTING''"
    by auto
  from last_close_gives_up[OF s5(2,3)] obtain s6 where
    s6: "close_current s5 = Some s6" "quiescent s6"
    by blast
  have after: "\<forall>n env es s'. Connect \<notin> set es \<longrightarrow> run n env es s6 = Some s' \<longrightarrow>
              pending_reconnects s' = [] \<and>
              getConnectionState s' = ''DISCONNECTED'' \<and>
              length (sockets s') = length (sockets s6)"
  proof (intro allI impI)
    fix n env es s'
    assume "Connect \<notin> set es" "run n env es s6 = Some s'"
    from quiescent_run[OF s6(2) this(2,1)]
    show "pending_reconnects s' = [] \<and> getConnectionState s' = ''DISCONNECTED'' \<and>
          length (sockets s') = length (sockets s6)"
      by (simp add: quiescent_state) (simp add: quiescent_def)
  qed
  have "reconnectAttempts s5 = 5" using s5(3) by (simp add: session_live_def)
  moreover have "pending_reconnects s6 = []" using s6(2) by (simp add: quiescent_def)
  ultimately show ?thesis
    using s5(1,4,5) s6(1) quiescent_state[OF s6(2)] after by blast
qed

theorem reconnection_stops_after_sixth_close_witness:
  "well_formed (connect fresh_client) \<and> session_live 0 (connect fresh_client) \<and>
   (\<exists>s5 s6. close_and_retry 5 (connect fresh_client) = Some s5 \<and>
      length (sockets s5) = 6 \<and>
      close_current s5 = Some s6 \<and>
      pending_reconnects s6 = [] \<and>
      getConnectionState s6 = ''DISCONNECTED'' \<and>
      run 0 sample_env [Disconnect, Subscribe 4] s6 = Some (subscribe 4 (disconnect s6)) \<and>
      getConnectionState (subscribe 4 (disconnect s6)) = ''DISCONNECTED'')"
proof -
  have h1: "well_formed (connect fresh_client)"
    by (simp add: fresh_client_def well_formed_connect well_formed_constructor)
  have h2: "session_live 0 (connect fresh_client)"
    by (simp add: session_live_def trace_defs)
  have len: "length (sockets (connect fresh_client)) = 1"
    by (simp add: trace_defs)
  from reconnection_stops_after_sixth_close[OF h1 h2] obtain s5 s6 where
    r: "close_and_retry 5 (connect fresh_client) = Some s5"
       "length (sockets s5) = length (sockets (connect fresh_client)) + 5"
       "close_current s5 = Some s6" "pending_reconnects s6 = []"
       "getConnectionState s6 = ''DISCONNECTED''" and
    after: "\<forall>n env es s'. Connect \<notin> set es \<longrightarrow> run n env es s6 = Some s' \<longrightarrow>
              pending_reconnects s' = [] \<and>
              getConnectionState s' = ''DISCONNECTED'' \<and>
              length (sockets s') = length (sockets s6)"
    by blast
  have run: "run 0 sample_env [Disconnect, Subscribe 4] s6 = Some (subscribe 4 (disconnect s6))"
    by simp
  have "Connect \<notin> set [Disconnect, Subscribe 4]" by simp
  with after run have "getConnectionState (subscribe 4 (disconnect s6)) = ''DISCONNECTED''"
    by blast
  with r run len h1 h2 show ?thesis
    by (intro conjI exI[of _ s5] exI[of _ s6]) simp_all
qed

text \<open>
  C5. The claim: a frame whose payload is the text \<^verbatim>\<open>pong\<close> invokes no listener, and for a
  frame that parses as JSON every registered listener is invoked with the decoded value.
  The second half fails where a listener unsubscribes another from inside its call: on
  an open socket, with listeners 6 and 7 registered, where listener 6 unsubscribes
  listener 7 when it is called, the frame \<^verbatim>\<open>42\<close> is decoded and dispatched, and listener
  7 is not invoked.
\<close>

theorem frame_dispatch_skips_unsubscribed_listener:
  "JSON_parse sample_env ''42'' = Some 42 \<and>
   map_option listeners
     (run 0 sample_env [Subscribe 6, Subscribe 7, Connect, SockOpen 0] fresh_client) =
     Some [Some 6, Some 7] \<and>
   map_option invoked
     (run 2 sample_env [Subscribe 6, Subscribe 7, Connect, SockOpen 0, SockMessage 0 ''42'']
        fresh_client) =
     Some [(6, 42)]"
  by (simp add: socket_receives_def onmessage_def notifyListeners_def notify_one_def
      call_listener_def sample_env_def trace_defs numeral_2_eq_2)

text \<open>
  C5, amended. In every state the instance can be in, for every frame that arrives on an
  open socket: if its payload is the text \<^verbatim>\<open>pong\<close>, nothing changes and no listener is
  invoked. If its payload is another text that \<^verbatim>\<open>JSON.parse\<close> accepts, the event is the
  dispatch of the value the parser returned; whenever it returns, every invocation it
  made carries that value, and every registered listener that no listener invoked during
  the dispatch unsubscribes has been invoked exactly once with it. Where the registered
  listeners, if they call back into the registry at all, only unsubscribe, the event
  returns and the listeners invoked are exactly those that no listener invoked before
  them has unsubscribed; where no listener touches the registry, these are all the
  registered listeners, in the order of registration.
\<close>

theorem pong_is_dropped_and_json_is_dispatched:
  assumes "run m env es constructor = Some s"
    and "k < length (sockets s)" and "sockets s ! k = OPEN"
  shows "step n env (SockMessage k ''pong'') s = Some s \<and>
   (payload \<noteq> ''pong'' \<longrightarrow> JSON_parse env payload = Some d \<longrightarrow>
      step n env (SockMessage k payload) s = notifyListeners n env d s \<and>
      (\<forall>s'. step n env (SockMessage k payload) s = Some s' \<longrightarrow>
         (\<exists>cs. invoked s' = invoked s @ map (\<lambda>c. (c, d)) cs \<and>
            (\<forall>c \<in> set (set_values (listeners s)).
               \<not> unsubscribed_by env cs c \<longrightarrow> count_list cs c = 1))) \<and>
      (unsubscribes_only env (listeners s) \<longrightarrow> length (listeners s) \<le> n \<longrightarrow>
         (\<exists>s'. step n env (SockMessage k payload) s = Some s' \<and>
            invoked s' = invoked s @
              map (\<lambda>c. (c, d)) (survivors env (set_values (listeners s))) \<and>
            set (set_values (listeners s')) \<subseteq> set (survivors env (set_values (listeners s))) \<and>
            (registry_untouched env (listeners s) \<longrightarrow>
               invoked s' = invoked s @ map (\<lambda>c. (c, d)) (set_values (listeners s))))))"
proof -
  from reachable_well_formed[OF assms(1)] have dist: "distinct (set_values (listeners s))"
    by (simp add: well_formed_def)
  have pong: "step n env (SockMessage k ''pong'') s = Some s"
    using assms(2,3) by (simp add: socket_receives_def onmessage_def)
  have json: "payload \<noteq> ''pong'' \<longrightarrow> JSON_parse env payload = Some d \<longrightarrow>
      step n env (SockMessage k payload) s = notifyListeners n env d s \<and>
      (\<forall>s'. step n env (SockMessage k payload) s = Some s' \<longrightarrow>
         (\<exists>cs. invoked s' = invoked s @ map (\<lambda>c. (c, d)) cs \<and>
            (\<forall>c \<in> set (set_values (listeners s)).
               \<not> unsubscribed_by env cs c \<longrightarrow> count_list cs c = 1))) \<and>
      (unsubscribes_only env (listeners s) \<longrightarrow> length (listeners s) \<le> n \<longrightarrow>
         (\<exists>s'. step n env (SockMessage k payload) s = Some s' \<and>
            invoked s' = invoked s @
              map (\<lambda>c. (c, d)) (survivors env (set_values (listeners s))) \<and>
            set (set_values (listeners s')) \<subseteq> set (survivors env (set_values (listeners s))) \<and>
            (registry_untouched env (listeners s) \<longrightarrow>
               invoked s' = invoked s @ map (\<lambda>c. (c, d)) (set_values (listeners s)))))"
  proof (intro impI)
    assume p: "payload \<noteq> ''pong''" "JSON_parse env payload = Some d"
    with assms(2,3) have eq: "step n env (SockMessage k payload) s = notifyListeners n env d s"
      by (simp add: socket_receives_def onmessage_def)
    have general: "\<forall>s'. step n env (SockMessage k payload) s = Some s' \<longrightarrow>
         (\<exists>cs. invoked s' = invoked s @ map (\<lambda>c. (c, d)) cs \<and>
            (\<forall>c \<in> set (set_values (listeners s)).
               \<not> unsubscribed_by env cs c \<longrightarrow> count_list cs c = 1))"
    proof (intro allI impI)
      fix s' assume "step n env (SockMessage k payload) s = Some s'"
      then have "notifyListeners n env d s = Some s'" by (simp only: eq)
      from dispatch_general[OF this dist]
      show "\<exists>cs. invoked s' = invoked s @ map (\<lambda>c. (c, d)) cs \<and>
            (\<forall>c \<in> set (set_values (listeners s)).
               \<not> unsubscribed_by env cs c \<longrightarrow> count_list cs c = 1)"
        by blast
    qed
    have total: "unsubscribes_only env (listeners s) \<longrightarrow> length (listeners s) \<le> n \<longrightarrow>
         (\<exists>s'. step n env (SockMessage k payload) s = Some s' \<and>
            invoked s' = invoked s @
              map (\<lambda>c. (c, d)) (survivors env (set_values (listeners s))) \<and>
            set (set_values (listeners s')) \<subseteq> set (survivors env (set_values (listeners s))) \<and>
            (registry_untouched env (listeners s) \<longrightarrow>
               invoked s' = invoked s @ map (\<lambda>c. (c, d)) (set_values (listeners s))))"
    proof (intro impI)
      assume h: "unsubscribes_only env (listeners s)" "length (listeners s) \<le> n"
      from dispatch_only_unsubscribing[OF dist h, of d] obtain s' where
        r: "notifyListeners n env d s = Some s'"
           "invoked s' = invoked s @
              map (\<lambda>c. (c, d)) (survivors env (set_values (listeners s)))"
           "set (set_values (listeners s')) \<subseteq> set (survivors env (set_values (listeners s)))"
           "registry_untouched env (listeners s) \<longrightarrow>
              survivors env (set_values (listeners s)) = set_values (listeners s)"
        by blast
      from r(2,4) have "registry_untouched env (listeners s) \<longrightarrow>
               invoked s' = invoked s @ map (\<lambda>c. (c, d)) (set_values (listeners s))"
        by simp
      with r(1,2,3) show "\<exists>s'. step n env (SockMessage k payload) s = Some s' \<and>
            invoked s' = invoked s @
              map (\<lambda>c. (c, d)) (survivors env (set_values (listeners s))) \<and>
            set (set_values (listeners s')) \<subseteq> set (survivors env (set_values (listeners s))) \<and>
            (registry_untouched env (listeners s) \<longrightarrow>
               invoked s' = invoked s @ map (\<lambda>c. (c, d)) (set_values (listeners s)))"
        unfolding eq by (intro exI[of _ s'] conjI)
    qed
    from eq general total
    show "step n env (SockMessage k payload) s = notifyListeners n env d s \<and>
      (\<forall>s'. step n env (SockMessage k payload) s = Some s' \<longrightarrow>
         (\<exists>cs. invoked s' = invoked s @ map (\<lambda>c. (c, d)) cs \<and>
            (\<forall>c \<in> set (set_values (listeners s)).
               \<not> unsubscribed_by env cs c \<longrightarrow> count_list cs c = 1))) \<and>
      (unsubscribes_only env (listeners s) \<longrightarrow> length (listeners s) \<le> n \<longrightarrow>
         (\<exists>s'. step n env (SockMessage k payload) s = Some s' \<and>
            invoked s' = invoked s @
              map (\<lambda>c. (c, d)) (survivors env (set_values (listeners s))) \<and>
            set (set_values (listeners s')) \<subseteq> set (survivors env (set_values (listeners s))) \<and>
            (registry_untouched env (listeners s) \<longrightarrow>
               invoked s' = invoked s @ map (\<lambda>c. (c, d)) (set_values (listeners s)))))"
      by (intro conjI)
  qed
  from pong json show ?thesis by (intro conjI)
qed

theorem pong_is_dropped_and_json_is_dispatched_witness:
  "run 0 sample_env [Subscribe 3, Subscribe 4, Connect, SockOpen 0] constructor =
     Some connected_client \<and>
   0 < length (sockets connected_client) \<and> sockets connected_client ! 0 = OPEN \<and>
   step 0 sample_env (SockMessage 0 ''pong'') connected_client = Some connected_client \<and>
   ''42'' \<noteq> ''pong'' \<and> JSON_parse sample_env ''42'' = Some 42 \<and>
   registry_untouched sample_env (listeners connected_client) \<and>
   (\<exists>s'. step 2 sample_env (SockMessage 0 ''42'') connected_client = Some s' \<and>
      invoked s' = [(3, 42), (4, 42)]) \<and>
   run 0 sample_env [Subscribe 6, Subscribe 7, Connect, SockOpen 0] constructor =
     Some (connected_client\<lparr>listeners := [Some 6, Some 7]\<rparr>) \<and>
   unsubscribes_only sample_env (listeners (connected_client\<lparr>listeners := [Some 6, Some 7]\<rparr>)) \<and>
   (\<exists>s' cs. step 2 sample_env (SockMessage 0 ''42'')
        (connected_client\<lparr>listeners := [Some 6, Some 7]\<rparr>) = Some s' \<and>
      invoked s' = map (\<lambda>c. (c, 42)) cs \<and> cs = [6] \<and> count_list cs 6 = 1 \<and>
      set (set_values (listeners s')) \<subseteq> {6})"
proof -
  let ?k = "connected_client"
  let ?u = "connected_client\<lparr>listeners := [Some 6, Some 7]\<rparr>"
  have ru: "run 0 sample_env [Subscribe 6, Subscribe 7, Connect, SockOpen 0] constructor = Some ?u"
    by (simp add: connected_client_def trace_defs)
  have k: "listeners ?k = [Some 3, Some 4]" "invoked ?k = []" "0 < length (sockets ?k)"
    "sockets ?k ! 0 = OPEN"
    by (simp_all add: connected_client_def)
  have u: "listeners ?u = [Some 6, Some 7]" "invoked ?u = []" "0 < length (sockets ?u)"
    "sockets ?u ! 0 = OPEN"
    by (simp_all add: connected_client_def)
  have h1: "''42'' \<noteq> ''pong''" by simp
  have h2: "JSON_parse sample_env ''42'' = Some 42" by (simp add: sample_env_def)
  have gk: "registry_untouched sample_env (listeners ?k)"
    by (simp only: k) (simp add: registry_untouched_def sample_env_def)
  have lk: "length (listeners ?k) \<le> 2" by (simp only: k) simp
  have uu: "unsubscribes_only sample_env (listeners ?u)"
    by (simp only: u) (simp add: unsubscribes_only_def sample_env_def is_unsub_def)
  have lu: "length (listeners ?u) \<le> 2" by (simp only: u) simp
  have surv: "survivors sample_env (set_values (listeners ?u)) = [6]"
    by (simp only: u) (simp add: sample_env_def)
  note Tk = pong_is_dropped_and_json_is_dispatched[OF connected_client_reached k(3,4),
      where n = 2 and payload = "''42''" and d = 42]
  note T0 = pong_is_dropped_and_json_is_dispatched[OF connected_client_reached k(3,4),
      where n = 0 and payload = "''42''" and d = 42]
  note Tu = pong_is_dropped_and_json_is_dispatched[OF ru u(3,4),
      where n = 2 and payload = "''42''" and d = 42]
  note pong = T0[THEN conjunct1]
  note Jk = Tk[THEN conjunct2, THEN mp, THEN mp, OF h1 h2]
  note Ju = Tu[THEN conjunct2, THEN mp, THEN mp, OF h1 h2]
  from Jk[THEN conjunct2, THEN conjunct2, THEN mp, THEN mp,
      OF registry_untouched_unsubscribes_only[OF gk] lk]
  obtain s' where a: "step 2 sample_env (SockMessage 0 ''42'') ?k = Some s'"
    "registry_untouched sample_env (listeners ?k) \<longrightarrow>
       invoked s' = invoked ?k @ map (\<lambda>c. (c, 42)) (set_values (listeners ?k))"
    by (elim exE conjE) (rule that)
  from a(2)[THEN mp, OF gk] have a2: "invoked s' = [(3, 42), (4, 42)]"
    unfolding k by simp
  from a(1) a2 have A: "\<exists>s'. step 2 sample_env (SockMessage 0 ''42'') ?k = Some s' \<and>
      invoked s' = [(3, 42), (4, 42)]"
    by (intro exI[of _ s'] conjI)
  from Ju[THEN conjunct2, THEN conjunct2, THEN mp, THEN mp, OF uu lu]
  obtain t where b: "step 2 sample_env (SockMessage 0 ''42'') ?u = Some t"
    "invoked t = invoked ?u @
       map (\<lambda>c. (c, 42)) (survivors sample_env (set_values (listeners ?u)))"
    "set (set_values (listeners t)) \<subseteq> set (survivors sample_env (set_values (listeners ?u)))"
    by (elim exE conjE) (rule that)
  from b(2) have b2: "invoked t = [(6, 42)]"
    unfolding surv u(2) by simp
  from b(3) have b3: "set (set_values (listeners t)) \<subseteq> {6}"
    unfolding surv by simp
  from Ju[THEN conjunct2, THEN conjunct1, THEN spec, THEN mp, OF b(1)]
  obtain cs where cs: "invoked t = invoked ?u @ map (\<lambda>c. (c, 42)) cs"
    "\<forall>c \<in> set (set_values (listeners ?u)).
       \<not> unsubscribed_by sample_env cs c \<longrightarrow> count_list cs c = 1"
    by (elim exE conjE) (rule that)
  from cs(1) b2 have "map (\<lambda>c. (c, 42::nat)) cs = map (\<lambda>c. (c, 42)) [6]"
    by (simp only: u) simp
  then have eq: "cs = [6]" by (rule map_pair_inject)
  have nu: "\<not> unsubscribed_by sample_env [6] 6"
    by (simp add: unsubscribed_by_def sample_env_def)
  have reg: "6 \<in> set (set_values (listeners ?u))"
    by (simp only: u) simp
  from cs(2)[unfolded eq, THEN bspec, OF reg, THEN mp, OF nu]
  have c6: "count_list cs 6 = 1"
    by (simp only: eq)
  from cs(1) have inv: "invoked t = map (\<lambda>c. (c, 42)) cs"
    by (simp only: u) simp
  from b(1) inv eq c6 b3
  have B: "\<exists>s' cs. step 2 sample_env (SockMessage 0 ''42'') ?u = Some s' \<and>
      invoked s' = map (\<lambda>c. (c, 42)) cs \<and> cs = [6] \<and> count_list cs 6 = 1 \<and>
      set (set_values (listeners s')) \<subseteq> {6}"
    by (intro exI[of _ t] exI[of _ cs] conjI)
  from connected_client_reached k(3,4) pong h1 h2 gk A ru uu B show ?thesis
    by (intro conjI)
qed

text \<open>
  C6. A frame whose payload is not \<^verbatim>\<open>pong\<close> and that \<^verbatim>\<open>JSON.parse\<close> rejects is dropped: the
  handler returns (whatever the bound on the dispatch loop, which it does not enter), the
  error caught is written to the console, and nothing else changes: no listener is
  invoked, and the socket reference, the sockets, the timers, the reconnect counter, the
  flag, the registry and the reported connection state are what they were.
\<close>

theorem unparsable_frame_is_dropped:
  assumes "payload \<noteq> ''pong''" and "JSON_parse env payload = None"
  shows "\<exists>s'. onmessage n env payload s = Some s' \<and>
     (k < length (sockets s) \<and> sockets s ! k = OPEN \<longrightarrow>
        step n env (SockMessage k payload) s = Some s') \<and>
     console s' = console s @ [ConsoleError ''Error parsing WebSocket message:''] \<and>
     s'\<lparr>console := console s\<rparr> = s \<and>
     invoked s' = invoked s \<and> listeners s' = listeners s \<and>
     ws s' = ws s \<and> sockets s' = sockets s \<and>
     getConnectionState s' = getConnectionState s \<and>
     timers s' = timers s \<and> pingInterval s' = pingInterval s \<and>
     reconnectAttempts s' = reconnectAttempts s \<and>
     isIntentionallyClosed s' = isIntentionallyClosed s"
proof -
  let ?s' = "s\<lparr>console := console s @ [ConsoleError ''Error parsing WebSocket message:'']\<rparr>"
  have ret: "onmessage n env payload s = Some ?s'"
    using assms by (simp add: onmessage_def)
  have "getConnectionState ?s' = getConnectionState s"
    by (rule getConnectionState_cong) simp_all
  with ret show ?thesis
    by (intro exI[of _ ?s']) (simp add: socket_receives_def)
qed

theorem unparsable_frame_is_dropped_witness:
  "''{not json'' \<noteq> ''pong'' \<and> JSON_parse sample_env ''{not json'' = None \<and>
   sockets connected_client ! 0 = OPEN \<and>
   (\<exists>s'. step 0 sample_env (SockMessage 0 ''{not json'') connected_client = Some s' \<and>
      console s' = [ConsoleLog ''WebSocket connected'',
                    ConsoleError ''Error parsing WebSocket message:''] \<and>
      invoked s' = [] \<and> listeners s' = [Some 3, Some 4] \<and>
      getConnectionState s' = ''CONNECTED'')"
proof -
  let ?k = "connected_client"
  have h1: "''{not json'' \<noteq> ''pong''" by simp
  have h2: "JSON_parse sample_env ''{not json'' = None" by (simp add: sample_env_def)
  have k: "console ?k = [ConsoleLog ''WebSocket connected'']" "invoked ?k = []"
    "listeners ?k = [Some 3, Some 4]" "0 < length (sockets ?k)" "sockets ?k ! 0 = OPEN"
    "getConnectionState ?k = ''CONNECTED''"
    by (simp_all add: connected_client_def getConnectionState_def readyState_of_def)
  from unparsable_frame_is_dropped[OF h1 h2, of 0 ?k 0] k(4,5)
  obtain s' where "step 0 sample_env (SockMessage 0 ''{not json'') ?k = Some s'"
    "console s' = console ?k @ [ConsoleError ''Error parsing WebSocket message:'']"
    "invoked s' = invoked ?k" "listeners s' = listeners ?k"
    "getConnectionState s' = getConnectionState ?k"
    by blast
  with k h1 h2 show ?thesis by (intro conjI exI[of _ s']) simp_all
qed

text \<open>
  C7. The claim: if a listener throws during its invocation, the exception is caught
  and logged inside the dispatch loop, every other registered listener is still invoked
  for that message, and the transport and the connection state are unaffected. The
  part on the other listeners fails where a listener unsubscribes another from inside
  its call: with listeners 3, 6 and 7 registered in this order, where listener 3
  throws and listener 6 unsubscribes listener 7 when it is called, the exception of
  listener 3 is caught and logged, listener 6 is invoked, and listener 7 is not.
\<close>

theorem dispatch_after_throw_skips_unsubscribed_listener:
  "set_values (listeners (subscribe 7 (subscribe 6 (subscribe 3 fresh_client)))) = [3, 6, 7] \<and>
   raises (callback sample_env 3) \<and>
   map_option invoked
     (notifyListeners 3 sample_env 42 (subscribe 7 (subscribe 6 (subscribe 3 fresh_client)))) =
     Some [(3, 42), (6, 42)] \<and>
   map_option console
     (notifyListeners 3 sample_env 42 (subscribe 7 (subscribe 6 (subscribe 3 fresh_client)))) =
     Some [ConsoleError ''Error in WebSocket listener:'']"
  by (simp add: notifyListeners_def notify_one_def call_listener_def sample_env_def trace_defs
      numeral_3_eq_3)

text \<open>
  C7, amended. In every state the instance can be in, whenever a dispatch returns: the
  loop has written one error to the console for every listener invoked that threw, in
  the order of the invocations, and nothing else; every registered listener that no
  listener invoked during the dispatch unsubscribes has been invoked exactly once,
  whichever listeners throw; and the socket reference, the sockets, the frames sent,
  the timers, the counter, the flag and the reported connection state are what they
  were. Where the registered listeners, if they call back into the registry at all,
  only unsubscribe, the dispatch returns, and the listeners invoked are exactly those
  that no listener invoked before them has unsubscribed; where no listener touches the
  registry, these are all the registered listeners, in the order of registration.
\<close>

theorem throwing_listener_is_isolated:
  assumes "run m env es constructor = Some s"
  shows "(\<forall>s'. notifyListeners n env d s = Some s' \<longrightarrow>
      (\<exists>cs. invoked s' = invoked s @ map (\<lambda>c. (c, d)) cs \<and>
         console s' = console s @
           map (\<lambda>c. ConsoleError ''Error in WebSocket listener:'')
             (filter (\<lambda>c. raises (callback env c)) cs) \<and>
         (\<forall>c \<in> set (set_values (listeners s)).
            \<not> unsubscribed_by env cs c \<longrightarrow> count_list cs c = 1)) \<and>
      ws s' = ws s \<and> sockets s' = sockets s \<and> sent s' = sent s \<and>
      getConnectionState s' = getConnectionState s \<and>
      timers s' = timers s \<and> pingInterval s' = pingInterval s \<and>
      reconnectAttempts s' = reconnectAttempts s \<and>
      isIntentionallyClosed s' = isIntentionallyClosed s) \<and>
   (unsubscribes_only env (listeners s) \<longrightarrow> length (listeners s) \<le> n \<longrightarrow>
      (\<exists>s'. notifyListeners n env d s = Some s' \<and>
         invoked s' = invoked s @
           map (\<lambda>c. (c, d)) (survivors env (set_values (listeners s))) \<and>
         console s' = console s @
           map (\<lambda>c. ConsoleError ''Error in WebSocket listener:'')
             (filter (\<lambda>c. raises (callback env c)) (survivors env (set_values (listeners s)))) \<and>
         (registry_untouched env (listeners s) \<longrightarrow>
            survivors env (set_values (listeners s)) = set_values (listeners s))))"
proof -
  from reachable_well_formed[OF assms] have dist: "distinct (set_values (listeners s))"
    by (simp add: well_formed_def)
  have general: "\<forall>s'. notifyListeners n env d s = Some s' \<longrightarrow>
      (\<exists>cs. invoked s' = invoked s @ map (\<lambda>c. (c, d)) cs \<and>
         console s' = console s @
           map (\<lambda>c. ConsoleError ''Error in WebSocket listener:'')
             (filter (\<lambda>c. raises (callback env c)) cs) \<and>
         (\<forall>c \<in> set (set_values (listeners s)).
            \<not> unsubscribed_by env cs c \<longrightarrow> count_list cs c = 1)) \<and>
      ws s' = ws s \<and> sockets s' = sockets s \<and> sent s' = sent s \<and>
      getConnectionState s' = getConnectionState s \<and>
      timers s' = timers s \<and> pingInterval s' = pingInterval s \<and>
      reconnectAttempts s' = reconnectAttempts s \<and>
      isIntentionallyClosed s' = isIntentionallyClosed s"
  proof (intro allI impI)
    fix s' assume r: "notifyListeners n env d s = Some s'"
    from dispatch_general[OF r dist]
    have g: "\<exists>cs. invoked s' = invoked s @ map (\<lambda>c. (c, d)) cs \<and>
         console s' = console s @
           map (\<lambda>c. ConsoleError ''Error in WebSocket listener:'')
             (filter (\<lambda>c. raises (callback env c)) cs) \<and>
         (\<forall>c \<in> set (set_values (listeners s)).
            \<not> unsubscribed_by env cs c \<longrightarrow> count_list cs c = 1)"
      by (elim exE conjE, intro exI conjI)
    note f = forEach_frame[OF r[unfolded notifyListeners_def]]
    from f have st: "getConnectionState s' = getConnectionState s"
      by (intro getConnectionState_cong) simp_all
    from g f st
    show "(\<exists>cs. invoked s' = invoked s @ map (\<lambda>c. (c, d)) cs \<and>
         console s' = console s @
           map (\<lambda>c. ConsoleError ''Error in WebSocket listener:'')
             (filter (\<lambda>c. raises (callback env c)) cs) \<and>
         (\<forall>c \<in> set (set_values (listeners s)).
            \<not> unsubscribed_by env cs c \<longrightarrow> count_list cs c = 1)) \<and>
      ws s' = ws s \<and> sockets s' = sockets s \<and> sent s' = sent s \<and>
      getConnectionState s' = getConnectionState s \<and>
      timers s' = timers s \<and> pingInterval s' = pingInterval s \<and>
      reconnectAttempts s' = reconnectAttempts s \<and>
      isIntentionallyClosed s' = isIntentionallyClosed s"
      by simp
  qed
  have total: "unsubscribes_only env (listeners s) \<longrightarrow> length (listeners s) \<le> n \<longrightarrow>
      (\<exists>s'. notifyListeners n env d s = Some s' \<and>
         invoked s' = invoked s @
           map (\<lambda>c. (c, d)) (survivors env (set_values (listeners s))) \<and>
         console s' = console s @
           map (\<lambda>c. ConsoleError ''Error in WebSocket listener:'')
             (filter (\<lambda>c. raises (callback env c)) (survivors env (set_values (listeners s)))) \<and>
         (registry_untouched env (listeners s) \<longrightarrow>
            survivors env (set_values (listeners s)) = set_values (listeners s)))"
  proof (intro impI)
    assume h: "unsubscribes_only env (listeners s)" "length (listeners s) \<le> n"
    from dispatch_only_unsubscribing[OF dist h, of d]
    show "\<exists>s'. notifyListeners n env d s = Some s' \<and>
         invoked s' = invoked s @
           map (\<lambda>c. (c, d)) (survivors env (set_values (listeners s))) \<and>
         console s' = console s @
           map (\<lambda>c. ConsoleError ''Error in WebSocket listener:'')
             (filter (\<lambda>c. raises (callback env c)) (survivors env (set_values (listeners s)))) \<and>
         (registry_untouched env (listeners s) \<longrightarrow>
            survivors env (set_values (listeners s)) = set_values (listeners s))"
      by (elim exE conjE, intro exI conjI)
  qed
  from general total show ?thesis by (intro conjI)
qed

theorem throwing_listener_is_isolated_witness:
  "run 0 sample_env [Subscribe 3, Subscribe 4, Connect, SockOpen 0] constructor =
     Some connected_client \<and>
   registry_untouched sample_env (listeners connected_client) \<and>
   raises (callback sample_env 3) \<and>
   (\<exists>s'. notifyListeners 2 sample_env 42 connected_client = Some s' \<and>
      invoked s' = [(3, 42), (4, 42)] \<and>
      console s' = [ConsoleLog ''WebSocket connected'',
                    ConsoleError ''Error in WebSocket listener:''] \<and>
      sockets s' = [OPEN] \<and> sent s' = [] \<and>
      getConnectionState s' = ''CONNECTED'')"
proof -
  let ?k = "connected_client"
  have k: "listeners ?k = [Some 3, Some 4]" "invoked ?k = []"
    "console ?k = [ConsoleLog ''WebSocket connected'']" "sockets ?k = [OPEN]" "sent ?k = []"
    "getConnectionState ?k = ''CONNECTED''"
    by (simp_all add: connected_client_def getConnectionState_def readyState_of_def)
  have gk: "registry_untouched sample_env (listeners ?k)"
    by (simp only: k) (simp add: registry_untouched_def sample_env_def)
  have lk: "length (listeners ?k) \<le> 2" by (simp only: k) simp
  have r3: "raises (callback sample_env 3)" by (simp add: sample_env_def)
  note T = throwing_listener_is_isolated[OF connected_client_reached, where n = 2 and d = 42]
  from T[THEN conjunct2, THEN mp, THEN mp, OF registry_untouched_unsubscribes_only[OF gk] lk]
  obtain s' where a: "notifyListeners 2 sample_env 42 ?k = Some s'"
    "invoked s' = invoked ?k @
       map (\<lambda>c. (c, 42)) (survivors sample_env (set_values (listeners ?k)))"
    "console s' = console ?k @
       map (\<lambda>c. ConsoleError ''Error in WebSocket listener:'')
         (filter (\<lambda>c. raises (callback sample_env c))
            (survivors sample_env (set_values (listeners ?k))))"
    "registry_untouched sample_env (listeners ?k) \<longrightarrow>
       survivors sample_env (set_values (listeners ?k)) = set_values (listeners ?k)"
    by (elim exE conjE) (rule that)
  from a(4)[THEN mp, OF gk] have surv: "survivors sample_env (set_values (listeners ?k)) = [3, 4]"
    by (simp only: k) simp
  from a(2) have a2: "invoked s' = [(3, 42), (4, 42)]"
    unfolding surv by (simp add: k)
  from a(3) have a3: "console s' = [ConsoleLog ''WebSocket connected'',
                    ConsoleError ''Error in WebSocket listener:'']"
    unfolding surv by (simp add: k sample_env_def)
  note F = T[THEN conjunct1, THEN spec, THEN mp, OF a(1), THEN conjunct2]
  from F have f: "sockets s' = [OPEN]" "sent s' = []" "getConnectionState s' = ''CONNECTED''"
    by (simp_all add: k)
  from a(1) a2 a3 f
  have A: "\<exists>s'. notifyListeners 2 sample_env 42 ?k = Some s' \<and>
      invoked s' = [(3, 42), (4, 42)] \<and>
      console s' = [ConsoleLog ''WebSocket connected'',
                    ConsoleError ''Error in WebSocket listener:''] \<and>
      sockets s' = [OPEN] \<and> sent s' = [] \<and>
      getConnectionState s' = ''CONNECTED''"
    by (intro exI[of _ s'] conjI)
  from connected_client_reached gk r3 A show ?thesis by (intro conjI)
qed

text \<open>
  C8. When the runtime reports that a socket has opened, the handler sets the reconnect
  counter to 0 and starts an interval timer of 30000 milliseconds (30 time units of one
  second, the unit in which the reconnect delay of 3000 is 3), whose handle it keeps in
  \<^verbatim>\<open>pingInterval\<close>. Every firing of an interval timer runs the heartbeat, which sends the
  text \<^verbatim>\<open>ping\<close> on the current socket when that socket is open at that moment, and
  does nothing at all otherwise.
\<close>

theorem open_starts_heartbeat:
  "(step n env (SockOpen k) s = Some s' \<longrightarrow>
      reconnectAttempts s' = 0 \<and>
      pingInterval s' = Some (nextTimer s) \<and>
      timers s' = timers s @ [(nextTimer s, Interval 30000)] \<and>
      (well_formed s \<longrightarrow> step n env (TimerFire (nextTimer s)) s' = Some (heartbeat s'))) \<and>
   (map_of (timers s) t = Some (Interval ms) \<longrightarrow>
      step n env (TimerFire t) s = Some (heartbeat s)) \<and>
   (readyState_of s = Some OPEN \<longrightarrow>
      (\<exists>c. ws s = Some c \<and> heartbeat s = s\<lparr>sent := sent s @ [(c, ''ping'')]\<rparr>)) \<and>
   (readyState_of s \<noteq> Some OPEN \<longrightarrow> heartbeat s = s)"
proof -
  have opens: "step n env (SockOpen k) s = Some s' \<longrightarrow>
      reconnectAttempts s' = 0 \<and>
      pingInterval s' = Some (nextTimer s) \<and>
      timers s' = timers s @ [(nextTimer s, Interval 30000)] \<and>
      (well_formed s \<longrightarrow> step n env (TimerFire (nextTimer s)) s' = Some (heartbeat s'))"
  proof
    assume "step n env (SockOpen k) s = Some s'"
    then have s': "s' = onopen (s\<lparr>sockets := (sockets s)[k := OPEN]\<rparr>)"
      by (simp add: socket_opens_def split: if_splits)
    have fields: "reconnectAttempts s' = 0" "pingInterval s' = Some (nextTimer s)"
      "timers s' = timers s @ [(nextTimer s, Interval 30000)]"
      by (simp_all add: s' onopen_def setInterval_def)
    have "well_formed s \<longrightarrow> step n env (TimerFire (nextTimer s)) s' = Some (heartbeat s')"
    proof
      assume "well_formed s"
      then have "list_all (\<lambda>e. fst e < nextTimer s) (timers s)"
        by (simp add: well_formed_def)
      then have "map_of (timers s') (nextTimer s) = Some (Interval 30000)"
        by (simp add: fields(3) map_of_fresh_append del: map_of_append)
      then show "step n env (TimerFire (nextTimer s)) s' = Some (heartbeat s')"
        by (simp add: timer_fires_def)
    qed
    with fields show "reconnectAttempts s' = 0 \<and>
      pingInterval s' = Some (nextTimer s) \<and>
      timers s' = timers s @ [(nextTimer s, Interval 30000)] \<and>
      (well_formed s \<longrightarrow> step n env (TimerFire (nextTimer s)) s' = Some (heartbeat s'))"
      by simp
  qed
  have fires: "map_of (timers s) t = Some (Interval ms) \<longrightarrow>
      step n env (TimerFire t) s = Some (heartbeat s)"
    by (simp add: timer_fires_def)
  from opens fires heartbeat_cases[of s] show ?thesis by blast
qed

theorem open_starts_heartbeat_witness:
  "step 0 sample_env (SockOpen 0) (connect fresh_client) =
     Some (onopen (connect fresh_client\<lparr>sockets := [OPEN]\<rparr>)) \<and>
   well_formed (connect fresh_client) \<and>
   reconnectAttempts (onopen (connect fresh_client\<lparr>sockets := [OPEN]\<rparr>)) = 0 \<and>
   timers (onopen (connect fresh_client\<lparr>sockets := [OPEN]\<rparr>)) = [(1, Interval 30000)] \<and>
   step 0 sample_env (TimerFire 1) (onopen (connect fresh_client\<lparr>sockets := [OPEN]\<rparr>)) =
     Some (heartbeat (onopen (connect fresh_client\<lparr>sockets := [OPEN]\<rparr>))) \<and>
   map_of (timers connected_client) 1 = Some (Interval 30000) \<and>
   step 0 sample_env (TimerFire 1) connected_client = Some (heartbeat connected_client) \<and>
   readyState_of connected_client = Some OPEN \<and>
   sent (heartbeat connected_client) = [(0, ''ping'')] \<and>
   readyState_of (connect fresh_client) \<noteq> Some OPEN \<and>
   heartbeat (connect fresh_client) = connect fresh_client"
proof -
  let ?c = "connect fresh_client"
  let ?o = "onopen (?c\<lparr>sockets := [OPEN]\<rparr>)"
  let ?k = "connected_client"
  have c: "ws ?c = Some 0" "sockets ?c = [CONNECTING]" "timers ?c = []" "nextTimer ?c = 1"
    "sent ?c = []"
    by (simp_all add: fresh_client_def constructor_def connect_def readyState_of_def
        new_WebSocket_def)
  have h1: "step 0 sample_env (SockOpen 0) ?c = Some ?o"
    by (simp add: socket_opens_def c)
  have h2: "well_formed ?c"
    by (simp add: fresh_client_def well_formed_connect well_formed_constructor)
  have k: "ws ?k = Some 0" "sent ?k = []"
    by (simp_all add: connected_client_def)
  have h3: "readyState_of ?k = Some OPEN"
    by (simp add: readyState_of_def connected_client_def)
  have h4: "readyState_of ?c \<noteq> Some OPEN"
    by (simp add: readyState_of_def c)
  have h5: "map_of (timers ?k) 1 = Some (Interval 30000)"
    by (simp add: connected_client_def)
  from open_starts_heartbeat[of 0 sample_env 0 ?c ?o] h1 h2
  have A: "reconnectAttempts ?o = 0 \<and> timers ?o = timers ?c @ [(nextTimer ?c, Interval 30000)] \<and>
     step 0 sample_env (TimerFire (nextTimer ?c)) ?o = Some (heartbeat ?o)"
    by blast
  from open_starts_heartbeat[of 0 sample_env 0 ?k ?k 1 30000] h3 h5
  have B: "\<exists>j. ws ?k = Some j \<and> heartbeat ?k = ?k\<lparr>sent := sent ?k @ [(j, ''ping'')]\<rparr>"
    and B2: "step 0 sample_env (TimerFire 1) ?k = Some (heartbeat ?k)"
    by blast+
  from B have B': "sent (heartbeat ?k) = [(0, ''ping'')]"
    using k by auto
  from open_starts_heartbeat[of 0 sample_env 0 ?c ?o] h4
  have C: "heartbeat ?c = ?c"
    by blast
  from A B' B2 C h1 h2 h3 h4 h5 c show ?thesis by simp
qed

text \<open>
  C9. \<^verbatim>\<open>disconnect()\<close> succeeds from every state, also when there is no socket: it sets
  the "intentionally closed" flag, clears the heartbeat timer held in \<^verbatim>\<open>pingInterval\<close>,
  closes the socket (a socket that is not closed yet becomes closing) and clears the
  reference to it, after which \<^verbatim>\<open>getConnectionState()\<close> returns \<^verbatim>\<open>DISCONNECTED\<close>. The flag
  is in place when the close event of that socket arrives later: the event schedules no
  reconnection, counts nothing and leaves the reported state as it is.
\<close>

theorem disconnect_always_succeeds:
  "step n env Disconnect s = Some (disconnect s) \<and>
   isIntentionallyClosed (disconnect s) \<and>
   (\<forall>t. pingInterval s = Some t \<longrightarrow> t \<notin> fst ` set (timers (disconnect s))) \<and>
   (\<forall>k. ws s = Some k \<longrightarrow> k < length (sockets s) \<longrightarrow>
      sockets (disconnect s) ! k = (if sockets s ! k = CLOSED then CLOSED else CLOSING)) \<and>
   ws (disconnect s) = None \<and>
   getConnectionState (disconnect s) = ''DISCONNECTED'' \<and>
   (\<forall>k s'. socket_closes k (disconnect s) = Some s' \<longrightarrow>
      pending_reconnects s' = pending_reconnects (disconnect s) \<and>
      reconnectAttempts s' = reconnectAttempts s \<and>
      getConnectionState s' = ''DISCONNECTED'')"
proof -
  let ?d = "disconnect s"
  have stops: "\<forall>t. pingInterval s = Some t \<longrightarrow> t \<notin> fst ` set (timers ?d)"
    by (auto simp: disconnect_fields)
  have closes: "\<forall>k. ws s = Some k \<longrightarrow> k < length (sockets s) \<longrightarrow>
      sockets ?d ! k = (if sockets s ! k = CLOSED then CLOSED else CLOSING)"
  proof (intro allI impI)
    fix k assume "ws s = Some k" "k < length (sockets s)"
    then show "sockets ?d ! k = (if sockets s ! k = CLOSED then CLOSED else CLOSING)"
      by (cases "sockets s ! k")
        (simp_all add: disconnect_def clearInterval_def ws_close_def Let_def split: option.splits)
  qed
  have state: "getConnectionState ?d = ''DISCONNECTED''"
    by (simp add: getConnectionState_def readyState_of_def disconnect_fields)
  have sticky: "\<forall>k s'. socket_closes k ?d = Some s' \<longrightarrow>
      pending_reconnects s' = pending_reconnects ?d \<and>
      reconnectAttempts s' = reconnectAttempts s \<and>
      getConnectionState s' = ''DISCONNECTED''"
  proof (intro allI impI)
    fix k s' assume c: "socket_closes k ?d = Some s'"
    let ?x = "?d\<lparr>sockets := (sockets ?d)[k := CLOSED]\<rparr>"
    from c have s': "s' = onclose ?x"
      by (simp add: socket_closes_def split: if_splits)
    have "isIntentionallyClosed ?x" by (simp add: disconnect_fields)
    note oc = onclose_voluntary[OF this]
    have "timers s' = timers ?d"
      by (simp add: s' oc(1) disconnect_fields split: option.splits)
    then have "pending_reconnects s' = pending_reconnects ?d"
      by (rule pending_reconnects_cong)
    moreover have "reconnectAttempts s' = reconnectAttempts s"
      by (simp add: s' oc(4) disconnect_fields)
    moreover have "ws s' = None"
      by (simp add: s' oc(2) disconnect_fields)
    then have "getConnectionState s' = ''DISCONNECTED''"
      by (simp add: getConnectionState_def readyState_of_def)
    ultimately show "pending_reconnects s' = pending_reconnects ?d \<and>
      reconnectAttempts s' = reconnectAttempts s \<and>
      getConnectionState s' = ''DISCONNECTED''" by simp
  qed
  show ?thesis
    using stops closes state sticky by (simp add: disconnect_fields)
qed

theorem disconnect_always_succeeds_witness:
  "step 0 sample_env Disconnect fresh_client = Some (disconnect fresh_client) \<and>
   ws fresh_client = None \<and>
   getConnectionState (disconnect fresh_client) = ''DISCONNECTED'' \<and>
   pingInterval connected_client = Some 1 \<and> ws connected_client = Some 0 \<and>
   1 \<notin> fst ` set (timers (disconnect connected_client)) \<and>
   sockets (disconnect connected_client) ! 0 = CLOSING \<and>
   getConnectionState (disconnect connected_client) = ''DISCONNECTED'' \<and>
   (\<exists>s'. socket_closes 0 (disconnect connected_client) = Some s' \<and>
     pending_reconnects s' = [] \<and> reconnectAttempts s' = 0 \<and>
     getConnectionState s' = ''DISCONNECTED'')"
proof -
  let ?s = "connected_client"
  have s: "pingInterval ?s = Some 1" "ws ?s = Some 0" "0 < length (sockets ?s)"
    "sockets ?s ! 0 = OPEN" "reconnectAttempts ?s = 0" "ws fresh_client = None"
    by (simp_all add: connected_client_def fresh_client_def constructor_def)
  note T0 = disconnect_always_succeeds[of 0 sample_env fresh_client]
  note T = disconnect_always_succeeds[of 0 sample_env ?s]
  from T s have d: "1 \<notin> fst ` set (timers (disconnect ?s))"
    "sockets (disconnect ?s) ! 0 = CLOSING"
    "getConnectionState (disconnect ?s) = ''DISCONNECTED''"
    by simp_all
  have len: "length (sockets (disconnect ?s)) = 1"
    by (simp add: disconnect_fields connected_client_def)
  have p: "pending_reconnects (disconnect ?s) = []"
    by (simp add: pending_reconnects_def disconnect_fields connected_client_def)
  from d(2) len obtain s' where c: "socket_closes 0 (disconnect ?s) = Some s'"
    by (simp add: socket_closes_def)
  with T have "pending_reconnects s' = pending_reconnects (disconnect ?s) \<and>
      reconnectAttempts s' = reconnectAttempts ?s \<and> getConnectionState s' = ''DISCONNECTED''"
    by blast
  with c p s(5) have "\<exists>s'. socket_closes 0 (disconnect ?s) = Some s' \<and>
     pending_reconnects s' = [] \<and> reconnectAttempts s' = 0 \<and>
     getConnectionState s' = ''DISCONNECTED''"
    by (intro exI[of _ s']) simp
  with T0 s d show ?thesis by simp
qed

text \<open>
  C10. A transport error event by itself changes nothing observable: the error handler
  only writes to the console, so after the event every field of the instance, every
  socket, every timer, the listener registry and the reported connection state are what
  they were. Reconnections are scheduled by close events alone: no other event adds a
  pending reconnection.
\<close>

theorem error_event_changes_nothing:
  "(step n env (SockError k) s = Some s' \<longrightarrow>
      s'\<lparr>console := console s\<rparr> = s \<and>
      console s' = console s @ [ConsoleError ''WebSocket error:''] \<and>
      getConnectionState s' = getConnectionState s \<and>
      pending_reconnects s' = pending_reconnects s) \<and>
   (step n env e s = Some t \<longrightarrow> (\<forall>j. e \<noteq> SockClose j) \<longrightarrow>
      set (pending_reconnects t) \<subseteq> set (pending_reconnects s))"
proof (intro conjI impI)
  assume "step n env (SockError k) s = Some s'"
  then have s': "s' = onerror s"
    by (simp add: socket_errors_def split: if_splits)
  show "s'\<lparr>console := console s\<rparr> = s" by (simp add: s' onerror_def)
  show "console s' = console s @ [ConsoleError ''WebSocket error:'']" by (simp add: s' onerror_def)
  show "getConnectionState s' = getConnectionState s"
    by (rule getConnectionState_cong) (simp_all add: s' onerror_def)
  show "pending_reconnects s' = pending_reconnects s"
    by (simp add: s' onerror_def pending_reconnects_def)
next
  assume "step n env e s = Some t" "\<forall>j. e \<noteq> SockClose j"
  then show "set (pending_reconnects t) \<subseteq> set (pending_reconnects s)"
    by (rule only_close_schedules)
qed

theorem error_event_changes_nothing_witness:
  "step 0 sample_env (SockError 0) (connect fresh_client) = Some (onerror (connect fresh_client)) \<and>
   getConnectionState (onerror (connect fresh_client)) = getConnectionState (connect fresh_client) \<and>
   console (onerror (connect fresh_client)) = [ConsoleError ''WebSocket error:''] \<and>
   step 0 sample_env Disconnect (connect fresh_client) = Some (disconnect (connect fresh_client)) \<and>
   set (pending_reconnects (disconnect (connect fresh_client))) \<subseteq>
     set (pending_reconnects (connect fresh_client))"
proof -
  have h1: "step 0 sample_env (SockError 0) (connect fresh_client) =
            Some (onerror (connect fresh_client))"
    by (simp add: socket_errors_def connect_def fresh_client_def constructor_def
        readyState_of_def new_WebSocket_def)
  have h2: "step 0 sample_env Disconnect (connect fresh_client) =
            Some (disconnect (connect fresh_client))"
    by simp
  have h3: "console (connect fresh_client) = []"
    by (simp add: connect_def fresh_client_def constructor_def readyState_of_def new_WebSocket_def)
  have ne: "\<forall>j. Disconnect \<noteq> SockClose j" by simp
  note T = error_event_changes_nothing[of 0 sample_env 0 "connect fresh_client"
      "onerror (connect fresh_client)" Disconnect "disconnect (connect fresh_client)"]
  from T h1 have A: "getConnectionState (onerror (connect fresh_client)) =
                       getConnectionState (connect fresh_client) \<and>
                     console (onerror (connect fresh_client)) =
                       console (connect fresh_client) @ [ConsoleError ''WebSocket error:'']"
    by blast
  from T h2 ne have B: "set (pending_reconnects (disconnect (connect fresh_client))) \<subseteq>
                        set (pending_reconnects (connect fresh_client))"
    by blast
  from A B h1 h2 h3 show ?thesis by simp
qed

end
